theory Spec2Isabelle
  imports Main "HOL-Library.Word" "HOL-Library.Multiset"
begin

unbundle bit_operations_syntax

section \<open>Bytes, slices and struct packing\<close>

type_synonym byte = "8 word"
type_synonym bytes = "byte list"

datatype py_error = StructError | ValueError

text \<open>Python's \<open>xs[i:j]\<close> for non-negative \<open>i\<close> and \<open>j\<close>: clamped to the list, empty when
  \<open>j \<le> i\<close>.\<close>

definition py_slice :: "'a list \<Rightarrow> nat \<Rightarrow> nat \<Rightarrow> 'a list" where
  "py_slice xs i j = take (j - i) (drop i xs)"

text \<open>Slice assignment \<open>xs[i:j] = v\<close> on a bytearray, for \<open>i \<le> j\<close>.\<close>

definition set_slice :: "'a list \<Rightarrow> nat \<Rightarrow> nat \<Rightarrow> 'a list \<Rightarrow> 'a list" where
  "set_slice xs i j v = take i xs @ v @ drop j xs"

definition ljust :: "bytes \<Rightarrow> nat \<Rightarrow> byte \<Rightarrow> bytes" where
  "ljust bs w fill = bs @ replicate (w - length bs) fill"

text \<open>\<open>struct.pack\<close> of one unsigned integer in \<open>n\<close> bytes: little-endian (\<open><I\<close>, \<open><Q\<close>,
  \<open><H\<close>) and big-endian (\<open>>H\<close>, \<open>>I\<close>). A value out of range raises \<open>struct.error\<close>.\<close>

fun le_bytes :: "nat \<Rightarrow> int \<Rightarrow> bytes" where
  "le_bytes 0 v = []"
| "le_bytes (Suc n) v = word_of_int v # le_bytes n (v div 256)"

definition pack_le :: "nat \<Rightarrow> int \<Rightarrow> py_error + bytes" where
  "pack_le n v = (if 0 \<le> v \<and> v < 2 ^ (8 * n) then Inr (le_bytes n v) else Inl StructError)"

text \<open>\<open>struct.unpack('<H', b)[0]\<close> and its relatives: the little-endian value of the bytes.\<close>

fun unpack_le :: "bytes \<Rightarrow> nat" where
  "unpack_le [] = 0"
| "unpack_le (b # bs) = unat b + 256 * unpack_le bs"

section \<open>crypto.py: key derivation\<close>

definition MAGIC_1 :: int where
  "MAGIC_1 = 0x618123462C14795C"

definition MAGIC_2 :: int where
  "MAGIC_2 = 0x82800DF0"

definition generate_aes_key :: "int \<Rightarrow> py_error + bytes" where
  "generate_aes_key handle =
     (case pack_le 4 handle of
        Inl e \<Rightarrow> Inl e
      | Inr handle_bytes \<Rightarrow>
          (let key = take 16 (ljust handle_bytes 16 0) in
           case pack_le 8 MAGIC_1 of
             Inl e \<Rightarrow> Inl e
           | Inr m1 \<Rightarrow>
               (let key = set_slice key 4 12 m1 in
                case pack_le 4 MAGIC_2 of
                  Inl e \<Rightarrow> Inl e
                | Inr m2 \<Rightarrow> Inr (set_slice key 12 16 m2))))"


section \<open>crypto.py: selective decryption\<close>

text \<open>
  The AES-ECB cipher object comes from the Crypto library. It is a parameter of the model:
  \<open>cipher b\<close> is \<open>cipher.decrypt(b)\<close> on one 16-byte block. Every call below passes a slice
  of exactly 16 bytes, so the library's error for a misaligned input cannot occur.
\<close>

type_synonym cipher = "bytes \<Rightarrow> bytes"

function decrypt_64_80_loop :: "bytes \<Rightarrow> cipher \<Rightarrow> nat \<Rightarrow> bytes \<Rightarrow> bytes" where
  "decrypt_64_80_loop data cipher pos result =
     (if pos < length data then
        (let remaining = length data - pos in
         if remaining \<ge> 64 then
           (let result' = foldl (\<lambda>r i. r @ cipher (py_slice data (pos + i * 16) (pos + i * 16 + 16)))
                            result [0..<4];
                pos' = pos + 64;
                raw_bytes = min 16 (length data - pos') in
            if raw_bytes > 0
            then decrypt_64_80_loop data cipher (pos' + raw_bytes)
                   (result' @ py_slice data pos' (pos' + raw_bytes))
            else decrypt_64_80_loop data cipher pos' result')
         else result @ drop pos data)
      else result)"
  by pat_completeness auto
termination
  by (relation "measure (\<lambda>(data, cipher, pos, result). length data - pos)") auto

declare decrypt_64_80_loop.simps [simp del]

definition decrypt_64_80 :: "bytes \<Rightarrow> cipher \<Rightarrow> bytes" where
  "decrypt_64_80 data cipher = decrypt_64_80_loop data cipher 0 []"

text \<open>Python's \<open>range(start, stop, step)\<close> for a positive step.\<close>

function range_step :: "int \<Rightarrow> int \<Rightarrow> int \<Rightarrow> int list" where
  "range_step i stop step = (if 0 < step \<and> i < stop then i # range_step (i + step) stop step else [])"
  by pat_completeness auto
termination
  by (relation "measure (\<lambda>(i, stop, step). nat (stop - i))") auto

declare range_step.simps [simp del]

definition decrypt_audio :: "bytes \<Rightarrow> cipher \<Rightarrow> bytes" where
  "decrypt_audio data cipher =
     (let result = foldl (\<lambda>r i. r @ cipher (py_slice data (nat i) (nat i + 16))) []
                     (range_step 0 (int (length data) - 15) 16);
          remaining = length data mod 16 in
      if remaining \<noteq> 0 then result @ drop (length data - remaining) data else result)"

section \<open>Reference descriptions of the two decryption patterns\<close>

text \<open>AES-ECB decryption of a buffer: every complete 16-byte block through the cipher.\<close>

definition ecb_decrypt :: "cipher \<Rightarrow> bytes \<Rightarrow> bytes" where
  "ecb_decrypt cipher xs =
     concat (map (\<lambda>k. cipher (py_slice xs (16 * k) (16 * k + 16))) [0..<length xs div 16])"

text \<open>The 64/80 pattern as the specification words it: window by window.\<close>

function windows_64_80 :: "cipher \<Rightarrow> bytes \<Rightarrow> bytes" where
  "windows_64_80 cipher buf =
     (if length buf \<ge> 64
      then ecb_decrypt cipher (take 64 buf) @ take 16 (drop 64 buf) @ windows_64_80 cipher (drop 80 buf)
      else buf)"
  by pat_completeness auto
termination
  by (relation "measure (\<lambda>(cipher, buf). length buf)") auto

declare windows_64_80.simps [simp del]

text \<open>A stand-in block cipher for concrete evaluations: it adds 1 to every byte.\<close>

definition toy_cipher :: cipher where
  "toy_cipher b = map (\<lambda>x. x + 1) b"

text \<open>What the library guarantees of a block cipher: a 16-byte block decrypts to 16 bytes.\<close>

definition block_preserving :: "cipher \<Rightarrow> bool" where
  "block_preserving cipher \<longleftrightarrow> (\<forall>b. length b = 16 \<longrightarrow> length (cipher b) = 16)"

section \<open>stream.py: frame reassembly and the packet demultiplexer\<close>

definition HEADER_SIZE :: nat where
  "HEADER_SIZE = 12"

text \<open>A collected fragment: \<open>(cur_frame, payload)\<close>.\<close>

type_synonym chunk = "nat \<times> bytes"

text \<open>
  The reassembly state of a \<open>StreamRecorder\<close>. The dictionary \<open>_frame_chunks\<close> is only ever
  read and written at the key \<open>'current'\<close>, so it is the optional list stored there.
\<close>

record recorder =
  frame_chunks :: "chunk list option"
  current_frame_start :: "nat option"
  current_total :: nat
  current_is_iframe :: bool

definition init_recorder :: recorder where
  "init_recorder =
     \<lparr>frame_chunks = None, current_frame_start = None, current_total = 0,
      current_is_iframe = False\<rparr>"

text \<open>\<open>_decrypt_frame\<close>: \<open>list.sort\<close> is stable, as \<open>sort_key\<close> is.\<close>

definition decrypt_frame :: "chunk list \<Rightarrow> bool \<Rightarrow> cipher \<Rightarrow> bytes" where
  "decrypt_frame chunks is_iframe cipher =
     (let chunks' = sort_key fst chunks;
          frame_data = foldl (\<lambda>fd (cur_frame, payload).
                                if cur_frame = 0 then fd @ drop 16 payload else fd @ payload)
                         [] chunks'
      in if is_iframe \<or> length frame_data \<ge> 64
         then decrypt_64_80 frame_data cipher
         else frame_data)"

text \<open>
  The reassembled payload as the specification words it: the fragments in ascending index
  order, the index-0 fragment without its first 16 bytes, every other fragment whole.
\<close>

definition strip_metadata :: "chunk \<Rightarrow> bytes" where
  "strip_metadata ch = (if fst ch = 0 then drop 16 (snd ch) else snd ch)"

definition frame_payload :: "chunk list \<Rightarrow> bytes" where
  "frame_payload chunks = concat (map strip_metadata (sort_key fst chunks))"

text \<open>
  The body of the video branch once header and payload are read: a fragment with index 0
  flushes the open frame (emitted if complete, dropped otherwise) and opens a new one; any
  other fragment is appended to the open frame, which is emitted when it has
  \<open>current_total\<close> chunks, and is ignored when no frame is open.
\<close>

definition video_packet ::
  "cipher \<Rightarrow> nat \<Rightarrow> bool \<Rightarrow> nat \<Rightarrow> nat \<Rightarrow> bytes \<Rightarrow> recorder \<Rightarrow> bytes \<Rightarrow> recorder \<times> bytes" where
  "video_packet cipher p is_iframe total_frame cur_frame payload r video_result =
     (if cur_frame = 0 then
        (let video_result' =
               (case (current_frame_start r, frame_chunks r) of
                  (Some _, Some chunks) \<Rightarrow>
                    if length chunks \<ge> current_total r
                    then video_result @ decrypt_frame chunks (current_is_iframe r) cipher
                    else video_result
                | _ \<Rightarrow> video_result)
         in (r\<lparr>current_frame_start := Some p, current_total := total_frame,
                current_is_iframe := is_iframe, frame_chunks := Some [(cur_frame, payload)]\<rparr>,
             video_result'))
      else
        (case frame_chunks r of
           None \<Rightarrow> (r, video_result)
         | Some chunks \<Rightarrow>
             (let chunks' = chunks @ [(cur_frame, payload)] in
              if length chunks' \<ge> current_total r
              then (r\<lparr>frame_chunks := None, current_frame_start := None\<rparr>,
                    video_result @ decrypt_frame chunks' (current_is_iframe r) cipher)
              else (r\<lparr>frame_chunks := Some chunks'\<rparr>, video_result))))"

text \<open>The variables of the \<open>while\<close> loop of \<open>_process_stream_data\<close>.\<close>

record loop_state =
  rec :: recorder
  video_result :: bytes
  audio_result :: bytes
  pos :: nat

text \<open>One iteration of the loop, entered with \<open>pos < len(data)\<close>; \<open>None\<close> is \<open>break\<close>.\<close>

definition loop_body :: "cipher \<Rightarrow> bool \<Rightarrow> bytes \<Rightarrow> loop_state \<Rightarrow> loop_state option" where
  "loop_body cipher record_audio data s =
     (let p = pos s in
      if data ! p = 0x7F \<and> p + 1 < length data \<and> (data ! (p + 1) = 0x28 \<or> data ! (p + 1) = 0x29)
      then
        if p + HEADER_SIZE > length data then None
        else
          (let is_iframe = (data ! (p + 1) = 0x28);
               total_frame = unpack_le (py_slice data (p + 3) (p + 5));
               cur_frame = unpack_le (py_slice data (p + 5) (p + 7));
               pkt_len = unpack_le (py_slice data (p + 7) (p + 9));
               packet_end = p + HEADER_SIZE + pkt_len in
           if packet_end > length data then None
           else
             (let payload = py_slice data (p + 12) packet_end;
                  (r', v') = video_packet cipher p is_iframe total_frame cur_frame payload
                               (rec s) (video_result s)
              in Some (s\<lparr>rec := r', video_result := v', pos := packet_end\<rparr>)))
      else if data ! p = 0x7F \<and> p + 1 < length data \<and> data ! (p + 1) = 0x18
      then
        if p + HEADER_SIZE > length data then None
        else
          (let total_frame = unpack_le (py_slice data (p + 3) (p + 5));
               cur_frame = unpack_le (py_slice data (p + 5) (p + 7));
               pkt_len = unpack_le (py_slice data (p + 7) (p + 9));
               packet_end = p + HEADER_SIZE + pkt_len in
           if pkt_len > 1000 \<or> total_frame > 10 \<or> packet_end > length data
           then Some (s\<lparr>pos := p + 1\<rparr>)
           else if \<not> record_audio then Some (s\<lparr>pos := packet_end\<rparr>)
           else
             (let audio_payload = py_slice data (p + 12) packet_end;
                  audio_payload' = (if cur_frame = 0 \<and> length audio_payload > 16
                                    then drop 16 audio_payload else audio_payload);
                  decrypted = decrypt_audio audio_payload' cipher
              in Some (s\<lparr>audio_result := audio_result s @ decrypted, pos := packet_end\<rparr>)))
      else Some (s\<lparr>pos := p + 1\<rparr>))"

function process_loop :: "cipher \<Rightarrow> bool \<Rightarrow> bytes \<Rightarrow> loop_state \<Rightarrow> loop_state" where
  "process_loop cipher record_audio data s =
     (if pos s < length data then
        (case loop_body cipher record_audio data s of
           None \<Rightarrow> s
         | Some s' \<Rightarrow> process_loop cipher record_audio data s')
      else s)"
  by pat_completeness auto
termination
  by (relation "measure (\<lambda>(cipher, record_audio, data, s). length data - pos s)")
     (auto simp: loop_body_def HEADER_SIZE_def Let_def split: if_splits prod.splits)

declare process_loop.simps [simp del]

text \<open>
  \<open>_process_stream_data\<close>: the loop from position 0, then the flush of a complete open
  frame. Returns \<open>(video, audio, data[pos:])\<close> and the recorder's new state.
\<close>

definition process_stream_data ::
  "cipher \<Rightarrow> recorder \<Rightarrow> bytes \<Rightarrow> bool \<Rightarrow> (bytes \<times> bytes \<times> bytes) \<times> recorder" where
  "process_stream_data cipher r data record_audio =
     (let s = process_loop cipher record_audio data
                \<lparr>rec = r, video_result = [], audio_result = [], pos = 0\<rparr>;
          r1 = rec s;
          (r', video) =
            (case (current_frame_start r1, frame_chunks r1) of
               (Some _, Some chunks) \<Rightarrow>
                 if length chunks \<ge> current_total r1
                 then (r1\<lparr>frame_chunks := None, current_frame_start := None\<rparr>,
                       video_result s @ decrypt_frame chunks (current_is_iframe r1) cipher)
                 else (r1, video_result s)
             | _ \<Rightarrow> (r1, video_result s))
      in ((video, audio_result s, drop (pos s) data), r'))"

text \<open>The cursor positions at which the loop examines the buffer, in order.\<close>

function visited :: "cipher \<Rightarrow> bool \<Rightarrow> bytes \<Rightarrow> loop_state \<Rightarrow> nat list" where
  "visited cipher record_audio data s =
     (if pos s < length data then
        pos s # (case loop_body cipher record_audio data s of
                   None \<Rightarrow> []
                 | Some s' \<Rightarrow> visited cipher record_audio data s')
      else [])"
  by pat_completeness auto
termination
  by (relation "measure (\<lambda>(cipher, record_audio, data, s). length data - pos s)")
     (auto simp: loop_body_def HEADER_SIZE_def Let_def split: if_splits prod.splits)

declare visited.simps [simp del]

text \<open>
  Position \<open>p\<close> starts a truncated video packet: the tag and a video kind are there, but the
  12-byte header or the payload it declares runs past the end of the buffer.
\<close>

definition video_header_truncated :: "bytes \<Rightarrow> nat \<Rightarrow> bool" where
  "video_header_truncated data p \<longleftrightarrow>
     p + 1 < length data \<and> data ! p = 0x7F \<and> (data ! (p + 1) = 0x28 \<or> data ! (p + 1) = 0x29)
     \<and> (p + 12 > length data \<or> p + 12 + unpack_le (py_slice data (p + 7) (p + 9)) > length data)"

section \<open>The wire format of a packet\<close>

text \<open>
  The 12-byte header the loop parses (tag 0x7F, kind, a reserved byte, total fragments,
  fragment index and payload length as little-endian u16, three reserved bytes) and the
  payload. The recorder only reads packets; this builds the bytes it is given.
\<close>

definition packet_bytes :: "byte \<Rightarrow> nat \<Rightarrow> nat \<Rightarrow> bytes \<Rightarrow> bytes" where
  "packet_bytes kind total_frame cur_frame payload =
     [0x7F, kind, 0] @ le_bytes 2 (int total_frame) @ le_bytes 2 (int cur_frame)
       @ le_bytes 2 (int (length payload)) @ [0, 0, 0] @ payload"

text \<open>
  A packet as the four values its bytes carry: kind, total fragments, fragment index and
  payload.
\<close>

type_synonym packet = "byte \<times> nat \<times> nat \<times> bytes"

definition packet_wire :: "packet \<Rightarrow> bytes" where
  "packet_wire pk =
     (case pk of (kind, total_frame, cur_frame, payload) \<Rightarrow>
        packet_bytes kind total_frame cur_frame payload)"

text \<open>
  A packet the loop takes whole once all its bytes are in the buffer: a video packet, or an
  audio packet that passes the sanity gate. Every field fits its 16 bits.
\<close>

definition complete_packet :: "packet \<Rightarrow> bool" where
  "complete_packet pk =
     (case pk of (kind, total_frame, cur_frame, payload) \<Rightarrow>
        cur_frame < 65536 \<and> length payload < 65536
        \<and> ((kind = 0x28 \<or> kind = 0x29) \<and> total_frame < 65536
             \<or> kind = 0x18 \<and> total_frame \<le> 10 \<and> length payload \<le> 1000))"

section \<open>The RTP packetizer of \<^verbatim>\<open>rtsp_server.py\<close>\<close>

text \<open>Big-endian \<open>struct.pack\<close> of a sequence of unsigned fields, each with its width in bytes.\<close>

definition pack_be :: "nat \<Rightarrow> int \<Rightarrow> py_error + bytes" where
  "pack_be n v = (if 0 \<le> v \<and> v < 2 ^ (8 * n) then Inr (rev (le_bytes n v)) else Inl StructError)"

fun pack_fields :: "(nat \<times> int) list \<Rightarrow> py_error + bytes" where
  "pack_fields [] = Inr []"
| "pack_fields ((n, v) # fs) =
     (case pack_be n v of
        Inl e \<Rightarrow> Inl e
      | Inr b \<Rightarrow> (case pack_fields fs of Inl e \<Rightarrow> Inl e | Inr bs \<Rightarrow> Inr (b @ bs)))"

text \<open>The fields of an \<open>RTPPacketizer\<close>: Python integers.\<close>

record packetizer =
  ssrc :: int
  sequence :: int
  timestamp :: int
  payload_type :: int

text \<open>
  What \<open>__init__\<close> establishes: \<open>payload_type\<close> is 96 and \<open>ssrc\<close> is drawn from
  \<open>0..0xFFFFFFFF\<close> when the caller passes none.
\<close>

definition packetizer_ok :: "packetizer \<Rightarrow> bool" where
  "packetizer_ok st \<longleftrightarrow> 0 \<le> ssrc st \<and> ssrc st < 2 ^ 32 \<and> payload_type st = 96"

definition make_rtp_packet :: "packetizer \<Rightarrow> bytes \<Rightarrow> bool \<Rightarrow> py_error + (bytes \<times> packetizer)" where
  "make_rtp_packet st payload marker =
     (let byte0 = 0x80;
          byte1 = (if marker then 0x80 else 0) OR payload_type st in
      case pack_fields [(1, byte0), (1, byte1), (2, sequence st AND 0xFFFF),
                        (4, timestamp st AND 0xFFFFFFFF), (4, ssrc st)] of
        Inl e \<Rightarrow> Inl e
      | Inr header \<Rightarrow> Inr (header @ payload, st\<lparr>sequence := (sequence st + 1) AND 0xFFFF\<rparr>))"

definition max_payload :: nat where
  "max_payload = 1400"

text \<open>The \<open>while\<close> loop of \<open>packetize_nal\<close> over the fragments of a large NAL unit.\<close>

function fu_loop ::
  "packetizer \<Rightarrow> bytes \<Rightarrow> bool \<Rightarrow> byte \<Rightarrow> byte \<Rightarrow> byte \<Rightarrow> nat \<Rightarrow> bool \<Rightarrow> bytes list
     \<Rightarrow> py_error + (bytes list \<times> packetizer)" where
  "fu_loop st nal_data is_last nal_type fu_header1 fu_header2 offset first packets =
     (if offset < length nal_data then
        (let chunk_size = min (max_payload - 3) (length nal_data - offset);
             last_fragment = (offset + chunk_size \<ge> length nal_data);
             fu_indicator = [fu_header1, fu_header2];
             fu_type = nal_type;
             fu_header = (if first then 0x80 OR fu_type
                          else if last_fragment then 0x40 OR fu_type
                          else fu_type);
             payload = fu_indicator @ [fu_header] @ py_slice nal_data offset (offset + chunk_size)
         in case make_rtp_packet st payload (is_last \<and> last_fragment) of
              Inl e \<Rightarrow> Inl e
            | Inr (pkt, st') \<Rightarrow>
                fu_loop st' nal_data is_last nal_type fu_header1 fu_header2
                  (offset + chunk_size) False (packets @ [pkt]))
      else Inr (packets, st))"
  by pat_completeness auto
termination
  by (relation "measure (\<lambda>(st, nal_data, is_last, nal_type, h1, h2, offset, first, packets).
                           length nal_data - offset)")
     (auto simp: max_payload_def)

declare fu_loop.simps [simp del]

text \<open>\<open>nal_data[0]\<close> and \<open>nal_data[1]\<close> exist in the second branch: the unit has over 1400 bytes.\<close>

definition packetize_nal :: "packetizer \<Rightarrow> bytes \<Rightarrow> bool \<Rightarrow> py_error + (bytes list \<times> packetizer)" where
  "packetize_nal st nal_data is_last =
     (if length nal_data \<le> max_payload then
        (case make_rtp_packet st nal_data is_last of
           Inl e \<Rightarrow> Inl e
         | Inr (pkt, st') \<Rightarrow> Inr ([pkt], st'))
      else
        (let nal_type = drop_bit 1 (nal_data ! 0) AND 0x3F;
             fu_header1 = (nal_data ! 0 AND 0x81) OR push_bit 1 49;
             fu_header2 = nal_data ! 1
         in fu_loop st nal_data is_last nal_type fu_header1 fu_header2 2 True []))"

section \<open>Reading RTP packets back\<close>

text \<open>
  A well-formed FU payload for NAL type \<open>t\<close> and indicator bytes \<open>h1\<close>, \<open>h2\<close>: the two
  indicator bytes, an FU header carrying the type, and between 1 and 1397 bytes of data.
\<close>

definition fu_payload_ok :: "byte \<Rightarrow> byte \<Rightarrow> byte \<Rightarrow> bytes \<Rightarrow> bool" where
  "fu_payload_ok t h1 h2 pl \<longleftrightarrow>
     3 < length pl \<and> length pl \<le> 1400 \<and> pl ! 0 = h1 \<and> pl ! 1 = h2 \<and> (pl ! 2) AND 0x3F = t"


text \<open>The payload of an RTP packet: what follows the 12-byte header.\<close>

definition rtp_payload :: "bytes \<Rightarrow> bytes" where
  "rtp_payload pkt = drop 12 pkt"

text \<open>
  Depacketizing fragmentation units, as the specification words it: byte 0 of the NAL unit
  from the F and layer bits of the FU indicator and the NAL type of the FU header, byte 1
  from the indicator's second byte, then the data of the fragments (each payload without its
  three leading bytes) in order.
\<close>

definition depacketize_fu :: "bytes list \<Rightarrow> bytes" where
  "depacketize_fu payloads =
     (case payloads of
        [] \<Rightarrow> []
      | first # _ \<Rightarrow>
          [(first ! 0 AND 0x81) OR push_bit 1 (first ! 2 AND 0x3F), first ! 1]
            @ concat (map (drop 3) payloads))"

section \<open>crypto.py: password encryption\<close>

text \<open>
  A Python \<open>str\<close> is modelled by the bytes of its UTF-8 encoding, one \<open>char\<close> each;
  \<open>str.encode\<close> and \<open>bytes.decode\<close> then only change the type.
\<close>

definition str_encode :: "string \<Rightarrow> bytes" where
  "str_encode s = map of_char s"

definition bytes_decode :: "bytes \<Rightarrow> string" where
  "bytes_decode bs = map (\<lambda>b. char_of (unat b)) bs"

definition V380_KEY :: string where
  "V380_KEY = ''macrovideo+*#!^@''"

text \<open>\<open>Crypto.Util.Padding.pad\<close> in its default PKCS#7 style.\<close>

definition pad :: "bytes \<Rightarrow> nat \<Rightarrow> bytes" where
  "pad data_to_pad block_size =
     (let padding_len = block_size - length data_to_pad mod block_size
      in data_to_pad @ replicate padding_len (of_nat padding_len))"

text \<open>
  The library's AES in ECB mode, over a block encryption \<open>E key block\<close> that is a parameter:
  \<open>AES.new\<close> raises \<open>ValueError\<close> for a key that is not 16, 24 or 32 bytes long, and
  \<open>encrypt\<close> for data that is not a whole number of 16-byte blocks.
\<close>

type_synonym block_cipher = "bytes \<Rightarrow> bytes \<Rightarrow> bytes"

definition ecb_encrypt :: "block_cipher \<Rightarrow> bytes \<Rightarrow> bytes \<Rightarrow> py_error + bytes" where
  "ecb_encrypt E key plaintext =
     (if length key \<noteq> 16 \<and> length key \<noteq> 24 \<and> length key \<noteq> 32 then Inl ValueError
      else if length plaintext mod 16 \<noteq> 0 then Inl ValueError
      else Inr (concat (map (\<lambda>k. E key (py_slice plaintext (16 * k) (16 * k + 16)))
                         [0..<length plaintext div 16])))"

text \<open>\<open>base64.b64encode\<close>: the standard alphabet, \<open>=\<close> padding.\<close>

definition b64_alphabet :: string where
  "b64_alphabet = ''ABCDEFGHIJKLMNOPQRSTUVWXYZabcdefghijklmnopqrstuvwxyz0123456789+/''"

definition b64_char :: "nat \<Rightarrow> byte" where
  "b64_char n = of_char (b64_alphabet ! n)"

fun b64encode :: "bytes \<Rightarrow> bytes" where
  "b64encode (a # b # c # rest) =
     (let n = unat a * 65536 + unat b * 256 + unat c
      in [b64_char (n div 262144), b64_char (n div 4096 mod 64),
          b64_char (n div 64 mod 64), b64_char (n mod 64)]) @ b64encode rest"
| "b64encode [a, b] =
     (let n = unat a * 65536 + unat b * 256
      in [b64_char (n div 262144), b64_char (n div 4096 mod 64),
          b64_char (n div 64 mod 64), of_char CHR ''=''])"
| "b64encode [a] =
     (let n = unat a * 65536
      in [b64_char (n div 262144), b64_char (n div 4096 mod 64),
          of_char CHR ''='', of_char CHR ''=''])"
| "b64encode [] = []"

definition encrypt_password :: "block_cipher \<Rightarrow> string \<Rightarrow> string \<Rightarrow> py_error + string" where
  "encrypt_password E password random_key =
     (let padded1 = pad (str_encode password) 16 in
      case ecb_encrypt E (str_encode V380_KEY) padded1 of
        Inl e \<Rightarrow> Inl e
      | Inr encrypted1 \<Rightarrow>
          (let padded2 = pad encrypted1 16 in
           case ecb_encrypt E (str_encode random_key) padded2 of
             Inl e \<Rightarrow> Inl e
           | Inr encrypted2 \<Rightarrow> Inr (bytes_decode (b64encode encrypted2))))"

section \<open>Reading an encrypted password back\<close>

text \<open>
  The receiving side is not in the repository. These follow the specification's words:
  base64-decode, AES-ECB-decrypt under the random key, strip PKCS#7, AES-ECB-decrypt under
  the fixed key, strip PKCS#7.
\<close>

fun index_of :: "'a \<Rightarrow> 'a list \<Rightarrow> nat option" where
  "index_of x [] = None"
| "index_of x (y # ys) = (if x = y then Some 0 else map_option Suc (index_of x ys))"

definition b64_index :: "char \<Rightarrow> nat option" where
  "b64_index c = index_of c b64_alphabet"

fun b64decode :: "string \<Rightarrow> bytes option" where
  "b64decode [] = Some []"
| "b64decode (c0 # c1 # c2 # c3 # rest) =
     (case (b64_index c0, b64_index c1) of
        (Some q0, Some q1) \<Rightarrow>
          if rest = [] \<and> c2 = CHR ''='' \<and> c3 = CHR ''=''
          then Some [of_nat ((q0 * 262144 + q1 * 4096) div 65536)]
          else
            (case b64_index c2 of
               None \<Rightarrow> None
             | Some q2 \<Rightarrow>
                 if rest = [] \<and> c3 = CHR ''=''
                 then Some [of_nat ((q0 * 262144 + q1 * 4096 + q2 * 64) div 65536),
                            of_nat ((q0 * 262144 + q1 * 4096 + q2 * 64) div 256 mod 256)]
                 else
                   (case (b64_index c3, b64decode rest) of
                      (Some q3, Some bs) \<Rightarrow>
                        (let m = q0 * 262144 + q1 * 4096 + q2 * 64 + q3
                         in Some ([of_nat (m div 65536), of_nat (m div 256 mod 256),
                                   of_nat (m mod 256)] @ bs))
                    | _ \<Rightarrow> None))
      | _ \<Rightarrow> None)"
| "b64decode _ = None"

definition unpad :: "bytes \<Rightarrow> bytes option" where
  "unpad padded =
     (if padded = [] \<or> length padded mod 16 \<noteq> 0 then None
      else
        (let n = unat (last padded) in
         if n < 1 \<or> n > 16 then None
         else if drop (length padded - n) padded \<noteq> replicate n (last padded) then None
         else Some (take (length padded - n) padded)))"

definition decrypt_password :: "block_cipher \<Rightarrow> string \<Rightarrow> string \<Rightarrow> string option" where
  "decrypt_password D random_key s =
     (case b64decode s of
        None \<Rightarrow> None
      | Some encrypted2 \<Rightarrow>
          (case unpad (ecb_decrypt (D (str_encode random_key)) encrypted2) of
             None \<Rightarrow> None
           | Some encrypted1 \<Rightarrow>
               (case unpad (ecb_decrypt (D (str_encode V380_KEY)) encrypted1) of
                  None \<Rightarrow> None
                | Some p \<Rightarrow> Some (bytes_decode p))))"

text \<open>
  What is assumed of AES: under a 16-byte key a 16-byte block encrypts to a 16-byte block,
  and decryption under the same key gives the block back.
\<close>

definition aes_pair :: "block_cipher \<Rightarrow> block_cipher \<Rightarrow> bool" where
  "aes_pair E D \<longleftrightarrow>
     (\<forall>key b. length key = 16 \<and> length b = 16 \<longrightarrow> length (E key b) = 16 \<and> D key (E key b) = b)"

text \<open>A stand-in pair for concrete evaluations: add the key to the block, byte by byte.\<close>

definition toy_encrypt :: block_cipher where
  "toy_encrypt key b = map (\<lambda>(x, k). x + k) (zip b key)"

definition toy_decrypt :: block_cipher where
  "toy_decrypt key b = map (\<lambda>(x, k). x - k) (zip b key)"

section \<open>Key derivation: the derived key\<close>

lemma le_bytes_numeral:
  "le_bytes (numeral n) v = word_of_int v # le_bytes (pred_numeral n) (v div 256)"
  by (simp add: numeral_eq_Suc)

lemma pack_le_MAGIC_1: "pack_le 8 MAGIC_1 = Inr [0x5C, 0x79, 0x14, 0x2C, 0x46, 0x23, 0x81, 0x61]"
  by (simp add: pack_le_def MAGIC_1_def le_bytes_numeral)

lemma pack_le_MAGIC_2: "pack_le 4 MAGIC_2 = Inr [0xF0, 0x0D, 0x80, 0x82]"
  by (simp add: pack_le_def MAGIC_2_def le_bytes_numeral)

lemma le_bytes_4: "le_bytes 4 h =
    [word_of_int h, word_of_int (h div 2 ^ 8), word_of_int (h div 2 ^ 16), word_of_int (h div 2 ^ 24)]"
proof -
  have "h div 256 div 256 = h div 2 ^ 16" "h div 256 div 256 div 256 = h div 2 ^ 24"
    by (simp_all add: zdiv_zmult2_eq [symmetric])
  then show ?thesis
    by (simp add: le_bytes_numeral)
qed

text \<open>
  C2. For every handle in the 32-bit range the derived key has 16 bytes: the handle as a
  little-endian u32, then 5C 79 14 2C 46 23 81 61 (the u64 constant, little-endian), then
  F0 0D 80 82 (the u32 constant, little-endian). The key is a function of the handle alone.
\<close>

theorem generate_aes_key_bytes:
  assumes "0 \<le> h" and "h < 2 ^ 32"
  shows "generate_aes_key h =
           Inr ([word_of_int h, word_of_int (h div 2 ^ 8), word_of_int (h div 2 ^ 16),
                 word_of_int (h div 2 ^ 24)]
                @ [0x5C, 0x79, 0x14, 0x2C, 0x46, 0x23, 0x81, 0x61]
                @ [0xF0, 0x0D, 0x80, 0x82])
         \<and> (\<forall>key. generate_aes_key h = Inr key \<longrightarrow>
               length key = 16
               \<and> py_slice key 0 4 = le_bytes 4 h
               \<and> py_slice key 4 12 = le_bytes 8 0x618123462C14795C
               \<and> py_slice key 12 16 = le_bytes 4 0x82800DF0)"
proof -
  have p: "pack_le 4 h = Inr (le_bytes 4 h)"
    using assms by (simp add: pack_le_def)
  have k: "generate_aes_key h =
           Inr ([word_of_int h, word_of_int (h div 2 ^ 8), word_of_int (h div 2 ^ 16),
                 word_of_int (h div 2 ^ 24)]
                @ [0x5C, 0x79, 0x14, 0x2C, 0x46, 0x23, 0x81, 0x61]
                @ [0xF0, 0x0D, 0x80, 0x82])"
    unfolding generate_aes_key_def p pack_le_MAGIC_1 pack_le_MAGIC_2 le_bytes_4
    by (simp add: ljust_def set_slice_def)
  have m1: "le_bytes 8 0x618123462C14795C = [0x5C, 0x79, 0x14, 0x2C, 0x46, 0x23, 0x81, 0x61]"
    by (simp add: le_bytes_numeral)
  have m2: "le_bytes 4 0x82800DF0 = [0xF0, 0x0D, 0x80, 0x82]"
    by (simp add: le_bytes_numeral)
  show ?thesis
    unfolding k m1 m2 le_bytes_4 by (simp add: py_slice_def)
qed

theorem generate_aes_key_bytes_witness:
  "generate_aes_key 222 =
     Inr [0xDE, 0, 0, 0, 0x5C, 0x79, 0x14, 0x2C, 0x46, 0x23, 0x81, 0x61, 0xF0, 0x0D, 0x80, 0x82]"
  using generate_aes_key_bytes [of 222] by simp
section \<open>The decryption patterns\<close>

lemma foldl_append_concat:
  "foldl (\<lambda>r i. r @ f i) result xs = result @ concat (map f xs)"
  by (induction xs arbitrary: result) simp_all

lemma py_slice_drop: "py_slice (drop p xs) i j = py_slice xs (p + i) (p + j)"
  by (simp add: py_slice_def add.commute)

lemma py_slice_take: "j \<le> n \<Longrightarrow> py_slice (take n xs) i j = py_slice xs i j"
  by (simp add: py_slice_def drop_take)

lemma ecb_decrypt_take_64:
  assumes "64 \<le> length buf"
  shows "ecb_decrypt cipher (take 64 buf) =
           concat (map (\<lambda>k. cipher (py_slice buf (k * 16) (k * 16 + 16))) [0..<4])"
proof -
  have n: "length (take 64 buf) div 16 = 4"
    using assms by simp
  show ?thesis
    unfolding ecb_decrypt_def n
    by (rule arg_cong [where f = concat], rule map_cong) (simp_all add: py_slice_take mult.commute)
qed

lemma decrypt_64_80_loop_windows:
  "decrypt_64_80_loop data cipher ofs result = result @ windows_64_80 cipher (drop ofs data)"
proof (induction data cipher ofs result rule: decrypt_64_80_loop.induct)
  case (1 data cipher ofs result)
  show ?case
  proof (cases "ofs < length data")
    case False
    then show ?thesis
      by (simp add: decrypt_64_80_loop.simps [of data cipher ofs] windows_64_80.simps [of cipher "[]"])
  next
    case True
    show ?thesis
    proof (cases "64 \<le> length data - ofs")
      case False
      with True show ?thesis
        by (simp add: decrypt_64_80_loop.simps [of data cipher ofs]
              windows_64_80.simps [of cipher "drop ofs data"])
    next
      case long: True
      define result' where "result' = result @ ecb_decrypt cipher (take 64 (drop ofs data))"
      have r: "foldl (\<lambda>r i. r @ cipher (py_slice data (ofs + i * 16) (ofs + i * 16 + 16))) result [0..<4]
                 = result'"
        unfolding result'_def foldl_append_concat
        using long by (simp add: ecb_decrypt_take_64 py_slice_drop add.assoc)
      have w: "windows_64_80 cipher (drop ofs data) =
                 ecb_decrypt cipher (take 64 (drop ofs data)) @ take 16 (drop (ofs + 64) data)
                   @ windows_64_80 cipher (drop (ofs + 80) data)"
        using long by (subst windows_64_80.simps) (simp add: add.commute)
      show ?thesis
      proof (cases "0 < min 16 (length data - (ofs + 64))")
        case raw: True
        have "decrypt_64_80_loop data cipher ofs result =
                decrypt_64_80_loop data cipher (ofs + 64 + min 16 (length data - (ofs + 64)))
                  (result' @ py_slice data (ofs + 64) (ofs + 64 + min 16 (length data - (ofs + 64))))"
          using True long raw r
          by (subst decrypt_64_80_loop.simps) (simp add: Let_def)
        also have "\<dots> = (result' @ py_slice data (ofs + 64) (ofs + 64 + min 16 (length data - (ofs + 64))))
                      @ windows_64_80 cipher (drop (ofs + 64 + min 16 (length data - (ofs + 64))) data)"
          using True long raw r "1.IH"(1) [OF True refl long refl refl refl raw] by simp
        also have "\<dots> = result @ windows_64_80 cipher (drop ofs data)"
        proof (cases "16 \<le> length data - (ofs + 64)")
          case True
          then show ?thesis
            unfolding w result'_def by (simp add: py_slice_def min_def add.assoc)
        next
          case False
          then have "drop (ofs + 80) data = []" by simp
          with False show ?thesis
            unfolding w result'_def
            by (simp add: py_slice_def min_def windows_64_80.simps [of cipher "[]"])
        qed
        finally show ?thesis .
      next
        case noraw: False
        then have e: "length data = ofs + 64"
          using long by simp
        have "decrypt_64_80_loop data cipher ofs result = decrypt_64_80_loop data cipher (ofs + 64) result'"
          using True long noraw r
          by (subst decrypt_64_80_loop.simps) (simp add: Let_def)
        also have "\<dots> = result' @ windows_64_80 cipher (drop (ofs + 64) data)"
          using r "1.IH"(2) [OF True refl long refl refl refl noraw] by simp
        also have "\<dots> = result @ windows_64_80 cipher (drop ofs data)"
          unfolding w result'_def using e by (simp add: windows_64_80.simps [of cipher "[]"])
        finally show ?thesis .
      qed
    qed
  qed
qed

lemma decrypt_64_80_windows: "decrypt_64_80 data cipher = windows_64_80 cipher data"
  by (simp add: decrypt_64_80_def decrypt_64_80_loop_windows)


lemma length_py_slice: "length (py_slice xs i j) = min (j - i) (length xs - i)"
  by (simp add: py_slice_def)

lemma length_concat_const:
  "(\<And>x. x \<in> set xs \<Longrightarrow> length (f x) = c) \<Longrightarrow> length (concat (map f xs)) = c * length xs"
  by (induction xs) simp_all

lemma length_ecb_decrypt:
  assumes "block_preserving cipher"
  shows "length (ecb_decrypt cipher xs) = 16 * (length xs div 16)"
proof -
  have "length (cipher (py_slice xs (16 * k) (16 * k + 16))) = 16" if "k \<in> set [0..<length xs div 16]" for k
  proof -
    from that have "16 * k + 16 \<le> length xs" by simp
    then have "length (py_slice xs (16 * k) (16 * k + 16)) = 16"
      by (simp add: length_py_slice)
    with assms show ?thesis by (simp add: block_preserving_def)
  qed
  then have "length (concat (map (\<lambda>k. cipher (py_slice xs (16 * k) (16 * k + 16))) [0..<length xs div 16]))
               = 16 * length [0..<length xs div 16]"
    by (rule length_concat_const)
  then show ?thesis by (simp add: ecb_decrypt_def)
qed

lemma length_windows_64_80:
  "block_preserving cipher \<Longrightarrow> length (windows_64_80 cipher buf) = length buf"
proof (induction cipher buf rule: windows_64_80.induct)
  case (1 cipher buf)
  show ?case
  proof (cases "64 \<le> length buf")
    case True
    then have "length (windows_64_80 cipher buf) =
                 length (ecb_decrypt cipher (take 64 buf)) + length (take 16 (drop 64 buf))
                   + length (windows_64_80 cipher (drop 80 buf))"
      by (subst windows_64_80.simps) simp
    also have "\<dots> = 64 + min 16 (length buf - 64) + (length buf - 80)"
      using True "1.IH" [OF True "1.prems"] "1.prems" by (simp add: length_ecb_decrypt)
    also have "\<dots> = length buf"
      using True by simp
    finally show ?thesis .
  next
    case False
    then show ?thesis
      by (subst windows_64_80.simps) simp
  qed
qed

lemma windows_64_80_step:
  assumes "80 \<le> length buf"
  shows "windows_64_80 cipher buf =
           ecb_decrypt cipher (take 64 buf) @ py_slice buf 64 80 @ windows_64_80 cipher (drop 80 buf)"
  using assms by (subst windows_64_80.simps) (simp add: py_slice_def)

lemma py_slice_append_skip:
  "length xs = n \<Longrightarrow> py_slice (xs @ ys) (n + i) (n + j) = py_slice ys i j"
  by (simp add: py_slice_def)

lemma py_slice_append_first:
  "j \<le> length xs \<Longrightarrow> py_slice (xs @ ys) i j = py_slice xs i j"
  by (simp add: py_slice_def)

lemma windows_64_80_window:
  assumes bp: "block_preserving cipher"
  shows "length buf = 80 * n \<Longrightarrow> k < n \<Longrightarrow>
         py_slice (windows_64_80 cipher buf) (80 * k) (80 * k + 64)
           = ecb_decrypt cipher (py_slice buf (80 * k) (80 * k + 64))
         \<and> py_slice (windows_64_80 cipher buf) (80 * k + 64) (80 * k + 80)
           = py_slice buf (80 * k + 64) (80 * k + 80)"
proof (induction k arbitrary: buf n)
  case 0
  then have len: "80 \<le> length buf" by simp
  have e: "length (ecb_decrypt cipher (take 64 buf)) = 64"
    using len by (simp add: length_ecb_decrypt [OF bp])
  have s: "length (py_slice buf 64 80) = 16"
    using len by (simp add: length_py_slice)
  have a: "py_slice (windows_64_80 cipher buf) 0 64 = ecb_decrypt cipher (take 64 buf)"
    unfolding windows_64_80_step [OF len] using e by (simp add: py_slice_def)
  have "py_slice (windows_64_80 cipher buf) (64 + 0) (64 + 16) = py_slice buf 64 80"
    unfolding windows_64_80_step [OF len]
    using s by (subst py_slice_append_skip [OF e])
      (simp add: py_slice_append_first py_slice_def [of "py_slice buf 64 80"])
  with a show ?case by (simp add: py_slice_def)
next
  case (Suc k)
  then have len: "80 \<le> length buf" by simp
  obtain m where m: "n = Suc m" using Suc.prems(2) by (cases n) simp_all
  have len': "length (drop 80 buf) = 80 * m" using Suc.prems(1) m by simp
  have km: "k < m" using Suc.prems(2) m by simp
  have h: "length (ecb_decrypt cipher (take 64 buf) @ py_slice buf 64 80) = 80"
    using len by (simp add: length_ecb_decrypt [OF bp] length_py_slice)
  have shift: "py_slice (windows_64_80 cipher buf) (80 + i) (80 + j)
                 = py_slice (windows_64_80 cipher (drop 80 buf)) i j" for i j
    using py_slice_append_skip [OF h, of "windows_64_80 cipher (drop 80 buf)" i j]
    by (simp add: windows_64_80_step [OF len])
  have shift': "py_slice buf (80 + i) (80 + j) = py_slice (drop 80 buf) i j" for i j
    by (simp add: py_slice_def add.commute)
  note ih = Suc.IH [OF len' km]
  have "py_slice (windows_64_80 cipher buf) (80 + 80 * k) (80 + (80 * k + 64))
          = ecb_decrypt cipher (py_slice buf (80 + 80 * k) (80 + (80 * k + 64)))"
    unfolding shift shift' using ih by (rule conjunct1)
  moreover have "py_slice (windows_64_80 cipher buf) (80 + (80 * k + 64)) (80 + (80 * k + 80))
          = py_slice buf (80 + (80 * k + 64)) (80 + (80 * k + 80))"
    unfolding shift shift' using ih by (rule conjunct2)
  ultimately show ?case
    by (simp add: add.assoc)
qed

lemma range_step_blocks:
  "m = n div 16 - j \<Longrightarrow> range_step (16 * int j) (int n - 15) 16 = map (\<lambda>k. 16 * int k) [j..<n div 16]"
proof (induction m arbitrary: j)
  case 0
  then have "n div 16 \<le> j" by simp
  then have "\<not> 16 * int j < int n - 15" by linarith
  with \<open>n div 16 \<le> j\<close> show ?case
    by (subst range_step.simps) simp
next
  case (Suc m)
  then have lt: "j < n div 16" by simp
  then have "16 * int j < int n - 15" by linarith
  then have "range_step (16 * int j) (int n - 15) 16 = 16 * int j # range_step (16 * int (Suc j)) (int n - 15) 16"
    by (subst range_step.simps) (simp add: algebra_simps)
  also have "range_step (16 * int (Suc j)) (int n - 15) 16 = map (\<lambda>k. 16 * int k) [Suc j..<n div 16]"
    using Suc by (intro Suc.IH) simp
  finally show ?case
    using lt by (simp add: upt_conv_Cons)
qed

lemma decrypt_audio_blocks:
  "decrypt_audio data cipher = ecb_decrypt cipher data @ drop (16 * (length data div 16)) data"
proof -
  have r: "range_step 0 (int (length data) - 15) 16 = map (\<lambda>k. 16 * int k) [0..<length data div 16]"
    using range_step_blocks [of "length data div 16" "length data" 0] by simp
  have f: "foldl (\<lambda>r i. r @ cipher (py_slice data (nat i) (nat i + 16))) []
             (range_step 0 (int (length data) - 15) 16) = ecb_decrypt cipher data"
    unfolding r foldl_append_concat ecb_decrypt_def
    by (simp add: comp_def nat_mult_distrib)
  have d: "length data - length data mod 16 = 16 * (length data div 16)"
    by (simp add: minus_mod_eq_mult_div)
  show ?thesis
    unfolding decrypt_audio_def f Let_def d
    by (simp add: mod_eq_0_iff_dvd)
qed

lemma length_decrypt_audio:
  "block_preserving cipher \<Longrightarrow> length (decrypt_audio data cipher) = length data"
  by (simp add: decrypt_audio_blocks length_ecb_decrypt)

lemma block_preserving_toy_cipher: "block_preserving toy_cipher"
  by (simp add: block_preserving_def toy_cipher_def)

text \<open>
  C4. \<open>decrypt_64_80\<close> works through the buffer in 80-byte windows: the first 64 bytes of a
  window are decrypted as four ECB blocks, the up to 16 bytes after them are copied, and a
  last window shorter than 64 bytes is copied whole. For a buffer of whole windows (and a
  cipher that maps blocks to blocks) output bytes 0..64 of each window are the ECB decryption
  of the input bytes and output bytes 64..80 are the input bytes.
\<close>

theorem decrypt_64_80_pattern:
  "decrypt_64_80 data cipher = windows_64_80 cipher data
   \<and> (block_preserving cipher \<longrightarrow>
        (\<forall>n k. length data = 80 * n \<longrightarrow> k < n \<longrightarrow>
           py_slice (decrypt_64_80 data cipher) (80 * k) (80 * k + 64)
             = ecb_decrypt cipher (py_slice data (80 * k) (80 * k + 64))
           \<and> py_slice (decrypt_64_80 data cipher) (80 * k + 64) (80 * k + 80)
             = py_slice data (80 * k + 64) (80 * k + 80)))"
  using windows_64_80_window [of cipher data]
  by (simp add: decrypt_64_80_windows)

theorem decrypt_64_80_pattern_witness:
  "block_preserving toy_cipher \<and> length (map of_nat [0..<160] :: bytes) = 80 * 2 \<and> (1::nat) < 2
   \<and> py_slice (decrypt_64_80 (map of_nat [0..<160]) toy_cipher) (80 * 1) (80 * 1 + 64)
         = ecb_decrypt toy_cipher (py_slice (map of_nat [0..<160]) (80 * 1) (80 * 1 + 64))
   \<and> py_slice (decrypt_64_80 (map of_nat [0..<160]) toy_cipher) (80 * 1 + 64) (80 * 1 + 80)
         = py_slice (map of_nat [0..<160]) (80 * 1 + 64) (80 * 1 + 80)"
proof -
  have l: "length (map of_nat [0..<160] :: bytes) = 80 * 2" by simp
  have k: "(1::nat) < 2" by simp
  from decrypt_64_80_pattern [of "map of_nat [0..<160]" toy_cipher]
  show ?thesis
    using block_preserving_toy_cipher l k by blast
qed

text \<open>
  C9. Both decryption routines preserve the length of the buffer, for a cipher that maps
  16-byte blocks to 16-byte blocks.
\<close>

theorem decrypt_length_preserved:
  assumes "block_preserving cipher"
  shows "length (decrypt_64_80 data cipher) = length data
         \<and> length (decrypt_audio data cipher) = length data"
  using assms by (simp add: decrypt_64_80_windows length_windows_64_80 length_decrypt_audio)

theorem decrypt_length_preserved_witness:
  "block_preserving toy_cipher
   \<and> length (decrypt_64_80 (replicate 100 0) toy_cipher) = 100
   \<and> length (decrypt_audio (replicate 37 0) toy_cipher) = 37"
  using decrypt_length_preserved [OF block_preserving_toy_cipher, of "replicate 100 0"]
        decrypt_length_preserved [OF block_preserving_toy_cipher, of "replicate 37 0"]
        block_preserving_toy_cipher
  by simp
section \<open>The demultiplexer and the audio flag\<close>

lemma loop_body_audio_flag:
  "loop_body c False data (s\<lparr>audio_result := a\<rparr>)
     = map_option (\<lambda>s'. s'\<lparr>audio_result := a\<rparr>) (loop_body c True data s)"
  by (auto simp: loop_body_def Let_def split: prod.splits)

lemma process_loop_audio_flag:
  "process_loop c False data (s\<lparr>audio_result := a\<rparr>) = (process_loop c True data s)\<lparr>audio_result := a\<rparr>"
proof (induction c "True" data s rule: process_loop.induct)
  case (1 c data s)
  show ?case
  proof (cases "pos s < length data")
    case False
    then show ?thesis
      by (simp add: process_loop.simps [of c _ data])
  next
    case True
    show ?thesis
    proof (cases "loop_body c True data s")
      case None
      with True show ?thesis
        by (simp add: process_loop.simps [of c _ data] loop_body_audio_flag)
    next
      case (Some s')
      with True "1.hyps" [OF True Some] show ?thesis
        by (simp add: process_loop.simps [of c _ data s] process_loop.simps [of c _ data "s\<lparr>audio_result := a\<rparr>"] loop_body_audio_flag)
    qed
  qed
qed

section \<open>Truncated video packets\<close>

lemma loop_body_pos:
  "loop_body c ra data s = Some s' \<Longrightarrow> pos s < pos s'"
  by (auto simp: loop_body_def HEADER_SIZE_def Let_def split: if_splits prod.splits)

lemma loop_body_truncated:
  "video_header_truncated data (pos s) \<Longrightarrow> loop_body c ra data s = None"
  by (auto simp: loop_body_def video_header_truncated_def HEADER_SIZE_def Let_def)

lemma visited_lower:
  "q \<in> set (visited c ra data s) \<Longrightarrow> pos s \<le> q"
proof (induction c ra data s rule: visited.induct)
  case (1 c ra data s)
  show ?case
  proof (cases "pos s < length data")
    case False
    with "1.prems" show ?thesis by (simp add: visited.simps [of c ra data s])
  next
    case True
    show ?thesis
    proof (cases "loop_body c ra data s")
      case None
      with True "1.prems" show ?thesis by (simp add: visited.simps [of c ra data s])
    next
      case (Some s')
      from True Some "1.prems" have "q = pos s \<or> q \<in> set (visited c ra data s')"
        by (simp add: visited.simps [of c ra data s])
      then show ?thesis
        using "1.IH" [OF True Some] loop_body_pos [OF Some] by auto
    qed
  qed
qed

lemma visited_truncated:
  "p \<in> set (visited c ra data s) \<Longrightarrow> video_header_truncated data p \<Longrightarrow>
   pos (process_loop c ra data s) = p \<and> (\<forall>q \<in> set (visited c ra data s). q \<le> p)"
proof (induction c ra data s rule: visited.induct)
  case (1 c ra data s)
  from "1.prems"(1) have lt: "pos s < length data"
    by (simp add: visited.simps [of c ra data s] split: if_splits)
  show ?case
  proof (cases "p = pos s")
    case True
    then have "loop_body c ra data s = None"
      using "1.prems"(2) by (simp add: loop_body_truncated)
    with lt True show ?thesis
      by (simp add: visited.simps [of c ra data s] process_loop.simps [of c ra data s])
  next
    case False
    with lt "1.prems"(1) have "\<exists>s'. loop_body c ra data s = Some s' \<and> p \<in> set (visited c ra data s')"
      by (cases "loop_body c ra data s") (simp_all add: visited.simps [of c ra data s])
    then obtain s' where s': "loop_body c ra data s = Some s'"
      and p: "p \<in> set (visited c ra data s')"
      by blast
    from "1.IH" [OF lt s' p "1.prems"(2)]
    have "pos (process_loop c ra data s') = p" and "\<forall>q \<in> set (visited c ra data s'). q \<le> p"
      by simp_all
    moreover have "pos s \<le> p"
      using visited_lower [OF p] loop_body_pos [OF s'] by simp
    ultimately show ?thesis
      using lt s'
      by (simp add: visited.simps [of c ra data s] process_loop.simps [of c ra data s])
  qed
qed

section \<open>Stepping over one packet\<close>

lemma unpack_le_u16:
  assumes "n < 65536"
  shows "unpack_le (le_bytes 2 (int n)) = n"
proof -
  have a: "unat (word_of_nat n :: byte) = n mod 256"
    by (simp add: unat_of_nat)
  have "int n div 256 = int (n div 256)"
    by (simp add: zdiv_int)
  then have b: "unat (word_of_int (int n div 256) :: byte) = (n div 256) mod 256"
    by (simp add: unat_of_nat)
  have "n div 256 < 256" using assms by simp
  then show ?thesis
    by (simp add: le_bytes_numeral a b)
qed

lemma packet_bytes_length: "length (packet_bytes k t i p) = 12 + length p"
  by (simp add: packet_bytes_def le_bytes_numeral)

lemma packet_header:
  assumes "data = pre @ packet_bytes k t i p @ post"
  shows "data ! length pre = 0x7F"
    and "data ! (length pre + 1) = k"
    and "length data = length pre + 12 + length p + length post"
    and "py_slice data (length pre + 3) (length pre + 5) = le_bytes 2 (int t)"
    and "py_slice data (length pre + 5) (length pre + 7) = le_bytes 2 (int i)"
    and "py_slice data (length pre + 7) (length pre + 9) = le_bytes 2 (int (length p))"
    and "py_slice data (length pre + 12) (length pre + 12 + length p) = p"
  unfolding assms
  by (simp_all add: packet_bytes_def le_bytes_numeral nth_append py_slice_def)

lemma loop_body_video_packet:
  assumes d: "data = pre @ packet_bytes k t i p @ post"
      and k: "k = 0x28 \<or> k = 0x29"
      and b: "t < 65536" "i < 65536" "length p < 65536"
      and s: "pos s = length pre"
  shows "loop_body c ra data s =
           Some (s\<lparr>rec := fst (video_packet c (length pre) (k = 0x28) t i p (rec s) (video_result s)),
                   video_result := snd (video_packet c (length pre) (k = 0x28) t i p (rec s) (video_result s)),
                   pos := length pre + 12 + length p\<rparr>)"
proof -
  note h = packet_header [OF d]
  have e: "length pre + 12 + length p \<le> length data" "Suc (length pre) < length data"
    by (simp_all add: h(3))
  show ?thesis
    unfolding loop_body_def Let_def s HEADER_SIZE_def h(1,2,4,5,6)
      unpack_le_u16 [OF b(1)] unpack_le_u16 [OF b(2)] unpack_le_u16 [OF b(3)] h(7)
    using k e by (auto split: prod.splits)
qed

lemma loop_body_audio_packet:
  assumes d: "data = pre @ packet_bytes 0x18 t i p @ post"
      and b: "t \<le> 10" "i < 65536" "length p \<le> 1000"
      and s: "pos s = length pre"
  shows "loop_body c True data s =
           Some (s\<lparr>audio_result := audio_result s
                     @ decrypt_audio (if i = 0 \<and> 16 < length p then drop 16 p else p) c,
                   pos := length pre + 12 + length p\<rparr>)"
proof -
  note h = packet_header [OF d]
  have e: "length pre + 12 + length p \<le> length data" "Suc (length pre) < length data"
    by (simp_all add: h(3))
  have b': "t < 65536" "length p < 65536" using b by simp_all
  show ?thesis
    unfolding loop_body_def Let_def s HEADER_SIZE_def h(1,2,4,5,6)
      unpack_le_u16 [OF b'(1)] unpack_le_u16 [OF b(2)] unpack_le_u16 [OF b'(2)] h(7)
    using b e by simp
qed


lemma process_loop_end: "length data \<le> pos s \<Longrightarrow> process_loop c ra data s = s"
  by (simp add: process_loop.simps [of c ra data s])

lemma process_loop_step:
  "pos s < length data \<Longrightarrow> loop_body c ra data s = Some s' \<Longrightarrow>
   process_loop c ra data s = process_loop c ra data s'"
  by (simp add: process_loop.simps [of c ra data s])
section \<open>The cursor over complete packets\<close>

lemma loop_body_audio_packet_off:
  assumes d: "data = pre @ packet_bytes 0x18 t i p @ post"
      and b: "t \<le> 10" "i < 65536" "length p \<le> 1000"
      and s: "pos s = length pre"
  shows "loop_body c False data s = Some (s\<lparr>pos := length pre + 12 + length p\<rparr>)"
proof -
  note h = packet_header [OF d]
  have e: "length pre + 12 + length p \<le> length data" "Suc (length pre) < length data"
    by (simp_all add: h(3))
  have b': "t < 65536" "length p < 65536" using b by simp_all
  show ?thesis
    unfolding loop_body_def Let_def s HEADER_SIZE_def h(1,2,4,5,6)
      unpack_le_u16 [OF b'(1)] unpack_le_u16 [OF b(2)] unpack_le_u16 [OF b'(2)] h(7)
    using b e by simp
qed

lemma loop_body_complete_packet:
  assumes "complete_packet pk" and "pos s = length pre"
  shows "\<exists>s'. loop_body c ra (pre @ packet_wire pk @ post) s = Some s'
              \<and> pos s' = length (pre @ packet_wire pk)"
proof -
  obtain k t i p where pk: "pk = (k, t, i, p)"
    by (cases pk) auto
  have w: "packet_wire pk = packet_bytes k t i p"
    by (simp add: pk packet_wire_def)
  from assms(1) have i: "i < 65536" and p: "length p < 65536"
    and kinds: "(k = 0x28 \<or> k = 0x29) \<and> t < 65536 \<or> k = 0x18 \<and> t \<le> 10 \<and> length p \<le> 1000"
    by (simp_all add: pk complete_packet_def)
  from kinds show ?thesis
  proof
    assume v: "(k = 0x28 \<or> k = 0x29) \<and> t < 65536"
    show ?thesis
      unfolding w
      using loop_body_video_packet [OF refl conjunct1 [OF v] conjunct2 [OF v] i p assms(2),
               where post = post and c = c and ra = ra]
      by (simp add: packet_bytes_length)
  next
    assume a: "k = 0x18 \<and> t \<le> 10 \<and> length p \<le> 1000"
    then have k: "k = 0x18" and t: "t \<le> 10" and l: "length p \<le> 1000" by simp_all
    show ?thesis
    proof (cases ra)
      case True
      then show ?thesis
        unfolding w k
        using loop_body_audio_packet [OF refl t i l assms(2), where post = post and c = c]
        by (simp add: packet_bytes_length)
    next
      case False
      then show ?thesis
        unfolding w k
        using loop_body_audio_packet_off [OF refl t i l assms(2), where post = post and c = c]
        by (simp add: packet_bytes_length)
    qed
  qed
qed

lemma video_header_truncated_append:
  assumes "video_header_truncated tail 0"
  shows "video_header_truncated (pre @ tail) (length pre)"
proof -
  have "py_slice (pre @ tail) (length pre + 7) (length pre + 9) = py_slice tail 7 9"
    by (rule py_slice_append_skip) simp
  then show ?thesis
    using assms by (auto simp: video_header_truncated_def nth_append)
qed

lemma truncated_tail_nonempty: "video_header_truncated tail 0 \<Longrightarrow> 0 < length tail"
  by (cases tail) (simp_all add: video_header_truncated_def)

lemma visited_head: "pos s < length data \<Longrightarrow> pos s \<in> set (visited c ra data s)"
  by (simp add: visited.simps [of c ra data s])

lemma visited_step:
  "pos s < length data \<Longrightarrow> loop_body c ra data s = Some s' \<Longrightarrow>
   q \<in> set (visited c ra data s') \<Longrightarrow> q \<in> set (visited c ra data s)"
  by (simp add: visited.simps [of c ra data s])

lemma visited_after_packets:
  "list_all complete_packet pkts \<Longrightarrow> video_header_truncated tail 0 \<Longrightarrow> pos s = length pre \<Longrightarrow>
   length (pre @ concat (map packet_wire pkts))
     \<in> set (visited c ra (pre @ concat (map packet_wire pkts) @ tail) s)"
proof (induction pkts arbitrary: pre s)
  case Nil
  have "0 < length tail"
    by (rule truncated_tail_nonempty [OF Nil.prems(2)])
  with Nil.prems(3) have "pos s < length (pre @ tail)"
    by simp
  then show ?case
    using visited_head [of s "pre @ tail" c ra] Nil.prems(3) by simp
next
  case (Cons pk pkts)
  let ?data = "pre @ concat (map packet_wire (pk # pkts)) @ tail"
  have d: "?data = pre @ packet_wire pk @ (concat (map packet_wire pkts) @ tail)"
    by simp
  have d': "?data = (pre @ packet_wire pk) @ concat (map packet_wire pkts) @ tail"
    by simp
  from Cons.prems(1) have pk: "complete_packet pk" and rest: "list_all complete_packet pkts"
    by simp_all
  obtain s' where body: "loop_body c ra ?data s = Some s'"
    and s': "pos s' = length (pre @ packet_wire pk)"
    unfolding d using loop_body_complete_packet [OF pk Cons.prems(3)] by blast
  have "0 < length tail"
    by (rule truncated_tail_nonempty [OF Cons.prems(2)])
  then have lt: "pos s < length ?data"
    using Cons.prems(3) by simp
  have "length ((pre @ packet_wire pk) @ concat (map packet_wire pkts))
          \<in> set (visited c ra ((pre @ packet_wire pk) @ concat (map packet_wire pkts) @ tail) s')"
    by (rule Cons.IH [OF rest Cons.prems(2) s'])
  then have "length ((pre @ packet_wire pk) @ concat (map packet_wire pkts)) \<in> set (visited c ra ?data s')"
    by (simp only: d' [symmetric])
  then have "length ((pre @ packet_wire pk) @ concat (map packet_wire pkts)) \<in> set (visited c ra ?data s)"
    by (rule visited_step [OF lt body])
  then show ?case by simp
qed

lemma packets_then_truncated:
  assumes "list_all complete_packet pkts" and "video_header_truncated tail 0"
  shows "pos (process_loop c ra (concat (map packet_wire pkts) @ tail)
                \<lparr>rec = r, video_result = [], audio_result = [], pos = 0\<rparr>)
           = length (concat (map packet_wire pkts))"
    and "length (concat (map packet_wire pkts))
           \<in> set (visited c ra (concat (map packet_wire pkts) @ tail)
                     \<lparr>rec = r, video_result = [], audio_result = [], pos = 0\<rparr>)"
    and "\<forall>q \<in> set (visited c ra (concat (map packet_wire pkts) @ tail)
                     \<lparr>rec = r, video_result = [], audio_result = [], pos = 0\<rparr>).
           q \<le> length (concat (map packet_wire pkts))"
proof -
  let ?s0 = "\<lparr>rec = r, video_result = [], audio_result = [], pos = 0\<rparr>"
  let ?pre = "concat (map packet_wire pkts)"
  have v: "length ?pre \<in> set (visited c ra (?pre @ tail) ?s0)"
    using visited_after_packets [OF assms, of ?s0 "[]" c ra] by simp
  have t: "video_header_truncated (?pre @ tail) (length ?pre)"
    by (rule video_header_truncated_append [OF assms(2)])
  from visited_truncated [OF v t] v
  show "pos (process_loop c ra (?pre @ tail) ?s0) = length ?pre"
    and "length ?pre \<in> set (visited c ra (?pre @ tail) ?s0)"
    and "\<forall>q \<in> set (visited c ra (?pre @ tail) ?s0). q \<le> length ?pre"
    by simp_all
qed

lemma remainder_pos:
  "snd (snd (fst (process_stream_data c r data ra)))
     = drop (pos (process_loop c ra data \<lparr>rec = r, video_result = [], audio_result = [], pos = 0\<rparr>)) data"
  by (simp add: process_stream_data_def Let_def split: prod.splits)

lemma single_packet_consumed:
  assumes "complete_packet pk"
  shows "snd (snd (fst (process_stream_data c r (packet_wire pk) ra))) = []"
proof -
  let ?s0 = "\<lparr>rec = r, video_result = [], audio_result = [], pos = 0\<rparr>"
  obtain s' where body: "loop_body c ra ([] @ packet_wire pk @ []) ?s0 = Some s'"
    and s': "pos s' = length ([] @ packet_wire pk)"
    using loop_body_complete_packet [OF assms, of ?s0 "[]" c ra "[]"] by auto
  have ne: "0 < length (packet_wire pk)"
    by (cases pk) (simp add: packet_wire_def packet_bytes_length)
  have "process_loop c ra (packet_wire pk) ?s0 = process_loop c ra (packet_wire pk) s'"
    using body ne by (intro process_loop_step) simp_all
  also have "\<dots> = s'"
    using s' by (intro process_loop_end) simp
  finally show ?thesis
    using s' by (simp add: remainder_pos)
qed

text \<open>
  C6 as stated fails. One complete P-frame packet whose payload ends with the bytes 7F 28:
  position 28 looks like the start of a video header that runs past the end of the buffer,
  yet the loop takes the packet whole, steps over those bytes and returns an empty remainder.
\<close>

theorem truncated_video_packet_counterexample:
  "video_header_truncated (packet_bytes 0x29 1 0 (replicate 16 0 @ [0x7F, 0x28])) 28
   \<and> drop 28 (packet_bytes 0x29 1 0 (replicate 16 0 @ [0x7F, 0x28])) = [0x7F, 0x28]
   \<and> snd (snd (fst (process_stream_data toy_cipher init_recorder
                      (packet_bytes 0x29 1 0 (replicate 16 0 @ [0x7F, 0x28])) False))) = []"
  by code_simp

text \<open>
  C6, as the code has it. When the cursor of the loop arrives at a position that starts a
  truncated video packet (tag 0x7F and kind 0x28 or 0x29 present, header or declared payload
  running past the end of the buffer), the loop stops there and the bytes from that position
  on are returned as the remainder. In a buffer of complete packets (video packets, and audio
  packets that pass the sanity gate) followed by a truncated video packet, the cursor arrives
  at the truncated packet, no later position is examined, and the truncated packet is the
  remainder.
\<close>

theorem truncated_video_packet_kept:
  assumes "list_all complete_packet pkts" and "video_header_truncated tail 0"
  shows "snd (snd (fst (process_stream_data c r (concat (map packet_wire pkts) @ tail) ra))) = tail
         \<and> length (concat (map packet_wire pkts))
             \<in> set (visited c ra (concat (map packet_wire pkts) @ tail)
                       \<lparr>rec = r, video_result = [], audio_result = [], pos = 0\<rparr>)
         \<and> (\<forall>q \<in> set (visited c ra (concat (map packet_wire pkts) @ tail)
                         \<lparr>rec = r, video_result = [], audio_result = [], pos = 0\<rparr>).
               q \<le> length (concat (map packet_wire pkts)))
         \<and> (p \<in> set (visited c ra data \<lparr>rec = r, video_result = [], audio_result = [], pos = 0\<rparr>)
              \<and> video_header_truncated data p \<longrightarrow>
              snd (snd (fst (process_stream_data c r data ra))) = drop p data)"
  using packets_then_truncated [OF assms, of c ra r] visited_truncated [of p c ra data]
  by (simp add: remainder_pos)

theorem truncated_video_packet_kept_witness:
  "list_all complete_packet [(0x29, 1, 0, replicate 17 0), (0x18, 1, 0, [1, 2, 3])]
   \<and> video_header_truncated [0x7F, 0x28, 3] 0
   \<and> snd (snd (fst (process_stream_data toy_cipher init_recorder
                      (concat (map packet_wire [(0x29, 1, 0, replicate 17 0), (0x18, 1, 0, [1, 2, 3])])
                         @ [0x7F, 0x28, 3]) True)))
       = [0x7F, 0x28, 3]
   \<and> 31 \<in> set (visited toy_cipher True
                  ([1, 0x7F] @ packet_bytes 0x28 1 0 (replicate 17 0) @ [0x7F, 0x28, 3])
                  \<lparr>rec = init_recorder, video_result = [], audio_result = [], pos = 0\<rparr>)
   \<and> video_header_truncated ([1, 0x7F] @ packet_bytes 0x28 1 0 (replicate 17 0) @ [0x7F, 0x28, 3]) 31
   \<and> snd (snd (fst (process_stream_data toy_cipher init_recorder
                      ([1, 0x7F] @ packet_bytes 0x28 1 0 (replicate 17 0) @ [0x7F, 0x28, 3]) True)))
       = drop 31 ([1, 0x7F] @ packet_bytes 0x28 1 0 (replicate 17 0) @ [0x7F, 0x28, 3])"
proof -
  let ?data = "[1, 0x7F] @ packet_bytes 0x28 1 0 (replicate 17 0) @ [0x7F, 0x28, 3]"
  have c: "list_all complete_packet [(0x29, 1, 0, replicate 17 0), (0x18, 1, 0, [1, 2, 3])]"
    by (simp add: complete_packet_def)
  have t: "video_header_truncated [0x7F, 0x28, 3] 0"
    by (simp add: video_header_truncated_def)
  have v: "31 \<in> set (visited toy_cipher True ?data
                        \<lparr>rec = init_recorder, video_result = [], audio_result = [], pos = 0\<rparr>)"
    by code_simp
  have u: "video_header_truncated ?data 31"
    by code_simp
  from truncated_video_packet_kept [OF c t, of toy_cipher init_recorder True 31 ?data] c t v u
  show ?thesis
    by blast
qed

text \<open>
  C10. The video bytes, the recorder's state after the call and the unconsumed remainder do
  not depend on \<open>record_audio\<close>; with the flag off no audio bytes are produced. An audio packet
  that passes the sanity gate moves the cursor to the end of the packet whether the flag is
  on or off: one iteration lands there, a buffer holding just the packet is consumed whole,
  and a truncated video packet after it is the remainder.
\<close>

theorem record_audio_flag:
  "fst (fst (process_stream_data c r data True)) = fst (fst (process_stream_data c r data False))
   \<and> snd (snd (fst (process_stream_data c r data True))) = snd (snd (fst (process_stream_data c r data False)))
   \<and> snd (process_stream_data c r data True) = snd (process_stream_data c r data False)
   \<and> fst (snd (fst (process_stream_data c r data False))) = []
   \<and> (t \<le> 10 \<and> i < 65536 \<and> length p \<le> 1000 \<and> pos s = length pre \<longrightarrow>
        loop_body c False (pre @ packet_bytes 0x18 t i p @ post) s
          = Some (s\<lparr>pos := length pre + 12 + length p\<rparr>)
        \<and> loop_body c True (pre @ packet_bytes 0x18 t i p @ post) s
          = Some (s\<lparr>audio_result := audio_result s
                      @ decrypt_audio (if i = 0 \<and> 16 < length p then drop 16 p else p) c,
                    pos := length pre + 12 + length p\<rparr>))
   \<and> (t \<le> 10 \<and> i < 65536 \<and> length p \<le> 1000 \<longrightarrow>
        snd (snd (fst (process_stream_data c r (packet_bytes 0x18 t i p) True))) = []
        \<and> snd (snd (fst (process_stream_data c r (packet_bytes 0x18 t i p) False))) = [])
   \<and> (t \<le> 10 \<and> i < 65536 \<and> length p \<le> 1000 \<and> video_header_truncated tail 0 \<longrightarrow>
        snd (snd (fst (process_stream_data c r (packet_bytes 0x18 t i p @ tail) True))) = tail
        \<and> snd (snd (fst (process_stream_data c r (packet_bytes 0x18 t i p @ tail) False))) = tail)"
proof -
  define s0 where "s0 = \<lparr>rec = r, video_result = [], audio_result = [], pos = 0\<rparr>"
  have "process_loop c False data s0 = (process_loop c True data s0)\<lparr>audio_result := []\<rparr>"
    using process_loop_audio_flag [where s = s0 and a = "[]"] by (simp add: s0_def)
  then have flag: "fst (fst (process_stream_data c r data True)) = fst (fst (process_stream_data c r data False))
   \<and> snd (snd (fst (process_stream_data c r data True))) = snd (snd (fst (process_stream_data c r data False)))
   \<and> snd (process_stream_data c r data True) = snd (process_stream_data c r data False)
   \<and> fst (snd (fst (process_stream_data c r data False))) = []"
    unfolding process_stream_data_def s0_def [symmetric]
    by (simp add: Let_def split: prod.splits option.splits)
  have step: "loop_body c False (pre @ packet_bytes 0x18 t i p @ post) s
          = Some (s\<lparr>pos := length pre + 12 + length p\<rparr>)
        \<and> loop_body c True (pre @ packet_bytes 0x18 t i p @ post) s
          = Some (s\<lparr>audio_result := audio_result s
                      @ decrypt_audio (if i = 0 \<and> 16 < length p then drop 16 p else p) c,
                    pos := length pre + 12 + length p\<rparr>)"
    if "t \<le> 10" "i < 65536" "length p \<le> 1000" "pos s = length pre"
    using loop_body_audio_packet_off [OF refl that] loop_body_audio_packet [OF refl that] by simp
  have ok: "complete_packet (0x18, t, i, p)" if "t \<le> 10" "i < 65536" "length p \<le> 1000"
    using that by (simp add: complete_packet_def)
  have whole: "snd (snd (fst (process_stream_data c r (packet_bytes 0x18 t i p) ra))) = []"
    if "t \<le> 10" "i < 65536" "length p \<le> 1000" for ra
    using single_packet_consumed [OF ok [OF that], of c r ra] by (simp add: packet_wire_def)
  have tl: "snd (snd (fst (process_stream_data c r (packet_bytes 0x18 t i p @ tail) ra))) = tail"
    if "t \<le> 10" "i < 65536" "length p \<le> 1000" "video_header_truncated tail 0" for ra
  proof -
    have "list_all complete_packet [(0x18, t, i, p)]"
      using ok [OF that(1-3)] by simp
    from packets_then_truncated(1) [OF this that(4), of c ra r]
    show ?thesis
      by (simp add: remainder_pos packet_wire_def)
  qed
  show ?thesis
    using flag step whole tl by blast
qed

theorem record_audio_flag_witness:
  "(1::nat) \<le> 10 \<and> (0::nat) < 65536 \<and> length [1, 2, 3 :: byte] \<le> 1000
   \<and> pos \<lparr>rec = init_recorder, video_result = [], audio_result = [], pos = 0\<rparr> = length ([] :: bytes)
   \<and> video_header_truncated [0x7F, 0x28, 3] 0
   \<and> loop_body toy_cipher False ([] @ packet_bytes 0x18 1 0 [1, 2, 3] @ [9])
         \<lparr>rec = init_recorder, video_result = [], audio_result = [], pos = 0\<rparr>
       = Some (\<lparr>rec = init_recorder, video_result = [], audio_result = [], pos = 0\<rparr>
                 \<lparr>pos := length ([] :: bytes) + 12 + length [1, 2, 3 :: byte]\<rparr>)
   \<and> snd (snd (fst (process_stream_data toy_cipher init_recorder (packet_bytes 0x18 1 0 [1, 2, 3]) True))) = []
   \<and> snd (snd (fst (process_stream_data toy_cipher init_recorder (packet_bytes 0x18 1 0 [1, 2, 3]) False))) = []
   \<and> snd (snd (fst (process_stream_data toy_cipher init_recorder
                      (packet_bytes 0x18 1 0 [1, 2, 3] @ [0x7F, 0x28, 3]) True))) = [0x7F, 0x28, 3]
   \<and> snd (snd (fst (process_stream_data toy_cipher init_recorder
                      (packet_bytes 0x18 1 0 [1, 2, 3] @ [0x7F, 0x28, 3]) False))) = [0x7F, 0x28, 3]"
proof -
  have h: "(1::nat) \<le> 10" "(0::nat) < 65536" "length [1, 2, 3 :: byte] \<le> 1000"
    "pos \<lparr>rec = init_recorder, video_result = [], audio_result = [], pos = 0\<rparr> = length ([] :: bytes)"
    by simp_all
  have t: "video_header_truncated [0x7F, 0x28, 3] 0"
    by (simp add: video_header_truncated_def)
  from record_audio_flag [of toy_cipher init_recorder "[]" 1 0 "[1, 2, 3]"
         "\<lparr>rec = init_recorder, video_result = [], audio_result = [], pos = 0\<rparr>" "[]" "[9]"
         "[0x7F, 0x28, 3]"] h t
  show ?thesis
    by blast
qed
section \<open>The audio metadata prefix\<close>



section \<open>Frames: sorting, reassembly and the decryption rule\<close>

lemma foldl_strip_metadata:
  "foldl (\<lambda>fd (cur_frame, payload). if cur_frame = 0 then fd @ drop 16 payload else fd @ payload) acc xs
     = acc @ concat (map strip_metadata xs)"
  by (induction xs arbitrary: acc) (auto simp: strip_metadata_def)

lemma decrypt_frame_payload:
  "decrypt_frame chunks is_iframe c =
     (if is_iframe \<or> 64 \<le> length (frame_payload chunks)
      then decrypt_64_80 (frame_payload chunks) c else frame_payload chunks)"
  by (simp add: decrypt_frame_def frame_payload_def foldl_strip_metadata Let_def)





lemma process_loop_fragments:
  assumes k: "k = 0x28 \<or> k = 0x29" and t: "t < 65536"
  shows "js \<noteq> [] \<Longrightarrow> \<forall>j \<in> set js. 0 < j \<and> j < 65536 \<and> length (f j) < 65536 \<Longrightarrow>
         frame_chunks (rec s) = Some chunks \<Longrightarrow>
         length chunks + length js = current_total (rec s) \<Longrightarrow>
         pos s = length pre \<Longrightarrow>
         process_loop c ra (pre @ concat (map (\<lambda>j. packet_bytes k t j (f j)) js)) s =
           s\<lparr>rec := (rec s)\<lparr>frame_chunks := None, current_frame_start := None\<rparr>,
             video_result := video_result s
               @ decrypt_frame (chunks @ map (\<lambda>j. (j, f j)) js) (current_is_iframe (rec s)) c,
             pos := length (pre @ concat (map (\<lambda>j. packet_bytes k t j (f j)) js))\<rparr>"
proof (induction js arbitrary: s chunks pre)
  case Nil
  then show ?case by simp
next
  case (Cons j js)
  let ?data = "pre @ concat (map (\<lambda>j. packet_bytes k t j (f j)) (j # js))"
  have d: "?data = pre @ packet_bytes k t j (f j) @ concat (map (\<lambda>j. packet_bytes k t j (f j)) js)"
    by simp
  have j: "0 < j" "j < 65536" "length (f j) < 65536"
    using Cons.prems(2) by simp_all
  define s' where "s' = s\<lparr>rec := fst (video_packet c (length pre) (k = 0x28) t j (f j) (rec s) (video_result s)),
                   video_result := snd (video_packet c (length pre) (k = 0x28) t j (f j) (rec s) (video_result s)),
                   pos := length pre + 12 + length (f j)\<rparr>"
  have body: "loop_body c ra ?data s = Some s'"
    unfolding s'_def by (rule loop_body_video_packet [OF d k t j(2) j(3) Cons.prems(5)])
  have lt: "pos s < length ?data"
    using Cons.prems(5) by (simp add: packet_bytes_length)
  have run: "process_loop c ra ?data s = process_loop c ra ?data s'"
    by (rule process_loop_step [OF lt body])
  show ?case
  proof (cases "js = []")
    case True
    have full: "current_total (rec s) \<le> Suc (length chunks)"
      using Cons.prems(4) True by simp
    have s'_eq: "s' = s\<lparr>rec := (rec s)\<lparr>frame_chunks := None, current_frame_start := None\<rparr>,
             video_result := video_result s
               @ decrypt_frame (chunks @ [(j, f j)]) (current_is_iframe (rec s)) c,
             pos := length pre + 12 + length (f j)\<rparr>"
      unfolding s'_def video_packet_def using j(1) Cons.prems(3) full by (simp add: Let_def)
    have "process_loop c ra ?data s' = s'"
      by (rule process_loop_end) (simp add: s'_def True packet_bytes_length)
    with run show ?thesis
      by (simp add: s'_eq True packet_bytes_length)
  next
    case False
    then have more: "Suc (length chunks) < current_total (rec s)"
      using Cons.prems(4) by (cases js) simp_all
    have s'_eq: "s' = s\<lparr>rec := (rec s)\<lparr>frame_chunks := Some (chunks @ [(j, f j)])\<rparr>,
             pos := length pre + 12 + length (f j)\<rparr>"
      unfolding s'_def video_packet_def using j(1) Cons.prems(3) more by (simp add: Let_def)
    have d': "?data = (pre @ packet_bytes k t j (f j)) @ concat (map (\<lambda>j. packet_bytes k t j (f j)) js)"
      by simp
    have ih: "process_loop c ra ?data s' =
           s'\<lparr>rec := (rec s')\<lparr>frame_chunks := None, current_frame_start := None\<rparr>,
             video_result := video_result s'
               @ decrypt_frame ((chunks @ [(j, f j)]) @ map (\<lambda>j. (j, f j)) js) (current_is_iframe (rec s')) c,
             pos := length ((pre @ packet_bytes k t j (f j)) @ concat (map (\<lambda>j. packet_bytes k t j (f j)) js))\<rparr>"
      unfolding d'
    proof (rule Cons.IH [OF False])
      show "\<forall>j\<in>set js. 0 < j \<and> j < 65536 \<and> length (f j) < 65536"
        using Cons.prems(2) by simp
      show "frame_chunks (rec s') = Some (chunks @ [(j, f j)])"
        by (simp add: s'_eq)
      show "length (chunks @ [(j, f j)]) + length js = current_total (rec s')"
        using Cons.prems(4) by (simp add: s'_eq)
      show "pos s' = length (pre @ packet_bytes k t j (f j))"
        by (simp add: s'_eq packet_bytes_length)
    qed
    show ?thesis
      unfolding run ih by (simp add: s'_eq)
  qed
qed

lemma demux_frame:
  assumes k: "k = 0x28 \<or> k = 0x29"
      and n: "length ps = n" "0 < n" "n < 65536"
      and len: "\<forall>p \<in> set ps. length p < 65536"
      and perm: "mset order = mset [1..<n]"
  shows "process_stream_data c r (concat (map (\<lambda>i. packet_bytes k n i (ps ! i)) (0 # order))) ra =
           ((snd (video_packet c 0 (k = 0x28) n 0 (ps ! 0) r [])
               @ decrypt_frame (map (\<lambda>i. (i, ps ! i)) (0 # order)) (k = 0x28) c, [], []),
            r\<lparr>current_frame_start := None, current_total := n, current_is_iframe := (k = 0x28),
              frame_chunks := None\<rparr>)"
proof -
  let ?pkt = "\<lambda>i. packet_bytes k n i (ps ! i)"
  let ?rest = "concat (map ?pkt order)"
  let ?data = "concat (map ?pkt (0 # order))"
  let ?v1 = "snd (video_packet c 0 (k = 0x28) n 0 (ps ! 0) r [])"
  define r1 where "r1 = r\<lparr>current_frame_start := Some 0, current_total := n,
                          current_is_iframe := (k = 0x28), frame_chunks := Some [(0, ps ! 0)]\<rparr>"
  define s0 where "s0 = \<lparr>rec = r, video_result = [], audio_result = [], pos = 0\<rparr>"
  define s1 where "s1 = s0\<lparr>rec := r1, video_result := ?v1, pos := 12 + length (ps ! 0)\<rparr>"
  have p0: "length (ps ! 0) < 65536"
    using n len by simp
  have d: "?data = [] @ ?pkt 0 @ ?rest"
    by simp
  have fst1: "fst (video_packet c 0 (k = 0x28) n 0 (ps ! 0) r []) = r1"
    by (simp add: video_packet_def r1_def Let_def)
  have "loop_body c ra ?data s0 = Some s1"
    using loop_body_video_packet [OF d k n(3) _ p0, of s0 c ra] fst1
    by (simp add: s0_def s1_def)
  moreover have "pos s0 < length ?data"
    by (simp add: s0_def packet_bytes_length)
  ultimately have run: "process_loop c ra ?data s0 = process_loop c ra ?data s1"
    by (rule process_loop_step [rotated])
  have set_order: "set order = {1..<n}"
    using perm by (metis mset_eq_setD set_upt)
  have len_order: "length order = n - 1"
    using perm by (metis mset_eq_length length_upt)
  show ?thesis
  proof (cases "order = []")
    case True
    then have n1: "n = 1"
      using len_order n(2) by simp
    have "process_loop c ra ?data s1 = s1"
      by (rule process_loop_end) (simp add: s1_def True packet_bytes_length)
    with run have "process_loop c ra ?data s0 = s1"
      by simp
    then show ?thesis
      unfolding process_stream_data_def s0_def [symmetric]
      by (simp add: s1_def s0_def r1_def True n1 Let_def packet_bytes_length)
  next
    case False
    have b: "\<forall>j \<in> set order. 0 < j \<and> j < 65536 \<and> length (ps ! j) < 65536"
      using set_order n len by auto
    have "process_loop c ra (?pkt 0 @ ?rest) s1 =
            s1\<lparr>rec := (rec s1)\<lparr>frame_chunks := None, current_frame_start := None\<rparr>,
               video_result := video_result s1
                 @ decrypt_frame ([(0, ps ! 0)] @ map (\<lambda>j. (j, ps ! j)) order) (current_is_iframe (rec s1)) c,
               pos := length (?pkt 0 @ ?rest)\<rparr>"
    proof (rule process_loop_fragments [OF k n(3) False b])
      show "frame_chunks (rec s1) = Some [(0, ps ! 0)]"
        by (simp add: s1_def r1_def)
      show "length [(0, ps ! 0)] + length order = current_total (rec s1)"
        using len_order n(2) by (simp add: s1_def r1_def)
      show "pos s1 = length (?pkt 0)"
        by (simp add: s1_def packet_bytes_length)
    qed
    with run have "process_loop c ra ?data s0 =
            s1\<lparr>rec := (rec s1)\<lparr>frame_chunks := None, current_frame_start := None\<rparr>,
               video_result := video_result s1
                 @ decrypt_frame ([(0, ps ! 0)] @ map (\<lambda>j. (j, ps ! j)) order) (current_is_iframe (rec s1)) c,
               pos := length (?pkt 0 @ ?rest)\<rparr>"
      by simp
    then show ?thesis
      unfolding process_stream_data_def s0_def [symmetric]
      by (simp add: s1_def s0_def r1_def Let_def)
  qed
qed






text \<open>
  C3. A reassembled frame goes through \<open>decrypt_64_80\<close> when it is an I-frame or its payload
  has at least 64 bytes, and is emitted unchanged otherwise. The I-frame flag is the kind byte
  0x28 of the frame's index-0 packet.
\<close>

theorem decrypt_frame_rule:
  "(is_iframe \<or> 64 \<le> length (frame_payload chunks) \<longrightarrow>
      decrypt_frame chunks is_iframe c = decrypt_64_80 (frame_payload chunks) c)
   \<and> (\<not> is_iframe \<and> length (frame_payload chunks) < 64 \<longrightarrow>
      decrypt_frame chunks is_iframe c = frame_payload chunks)
   \<and> ((k = 0x28 \<or> k = 0x29) \<and> length p < 65536 \<and> frame_chunks r = None \<longrightarrow>
      fst (fst (process_stream_data c r (packet_bytes k 1 0 p) ra))
        = (if k = 0x28 \<or> 64 \<le> length (drop 16 p) then decrypt_64_80 (drop 16 p) c else drop 16 p))"
proof -
  have "fst (fst (process_stream_data c r (packet_bytes k 1 0 p) ra))
        = (if k = 0x28 \<or> 64 \<le> length (drop 16 p) then decrypt_64_80 (drop 16 p) c else drop 16 p)"
    if k: "k = 0x28 \<or> k = 0x29" and p: "length p < 65536" and r: "frame_chunks r = None"
  proof -
    have "process_stream_data c r (concat (map (\<lambda>i. packet_bytes k 1 i ([p] ! i)) (0 # []))) ra =
           ((snd (video_packet c 0 (k = 0x28) 1 0 ([p] ! 0) r [])
               @ decrypt_frame (map (\<lambda>i. (i, [p] ! i)) (0 # [])) (k = 0x28) c, [], []),
            r\<lparr>current_frame_start := None, current_total := 1, current_is_iframe := (k = 0x28),
              frame_chunks := None\<rparr>)"
      by (rule demux_frame [OF k]) (simp_all add: p)
    moreover have "snd (video_packet c 0 (k = 0x28) 1 0 p r []) = []"
      using r by (simp add: video_packet_def Let_def split: option.splits)
    moreover have "frame_payload [(0, p)] = drop 16 p"
      by (simp add: frame_payload_def strip_metadata_def)
    ultimately show ?thesis
      by (simp add: decrypt_frame_payload)
  qed
  then show ?thesis
    by (simp add: decrypt_frame_payload)
qed

theorem decrypt_frame_rule_witness:
  "(True \<or> 64 \<le> length (frame_payload [(1, [5]), (0, replicate 16 0 @ [4 :: byte])]))
   \<and> decrypt_frame [(1, [5]), (0, replicate 16 0 @ [4])] True toy_cipher
       = decrypt_64_80 (frame_payload [(1, [5]), (0, replicate 16 0 @ [4])]) toy_cipher
   \<and> (\<not> False \<and> length (frame_payload [(1, [5]), (0, replicate 16 0 @ [4 :: byte])]) < 64)
   \<and> decrypt_frame [(1, [5]), (0, replicate 16 0 @ [4])] False toy_cipher
       = frame_payload [(1, [5]), (0, replicate 16 0 @ [4])]
   \<and> ((0x28::byte) = 0x28 \<or> (0x28::byte) = 0x29) \<and> length (replicate 96 (7::byte)) < 65536
   \<and> frame_chunks init_recorder = None
   \<and> fst (fst (process_stream_data toy_cipher init_recorder (packet_bytes 0x28 1 0 (replicate 96 7)) False))
       = (if (0x28::byte) = 0x28 \<or> 64 \<le> length (drop 16 (replicate 96 (7::byte)))
          then decrypt_64_80 (drop 16 (replicate 96 7)) toy_cipher else drop 16 (replicate 96 7))"
proof -
  have s: "length (frame_payload [(1, [5]), (0, replicate 16 0 @ [4 :: byte])]) < 64"
    by code_simp
  have i: "frame_chunks init_recorder = None"
    by (simp add: init_recorder_def)
  have l: "length (replicate 96 (7::byte)) < 65536"
    by simp
  from decrypt_frame_rule [of True "[(1, [5]), (0, replicate 16 0 @ [4])]" toy_cipher
         "0x28" "replicate 96 7" init_recorder False]
       decrypt_frame_rule [of False "[(1, [5]), (0, replicate 16 0 @ [4])]" toy_cipher
         "0x28" "replicate 96 7" init_recorder False]
       s i l
  show ?thesis
    by blast
qed
section \<open>RTP packetization\<close>

lemma nal_byte0_rebuilt:
  "(((b AND 0x81) OR push_bit 1 49) AND 0x81) OR push_bit 1 (drop_bit 1 b AND 0x3F) = (b :: byte)"
proof (rule bit_word_eqI)
  fix n assume "n < LENGTH(8)"
  then have n: "n \<in> {0, 1, 2, 3, 4, 5, 6, 7}" by auto
  have c: "push_bit 1 (49::byte) = 98" by simp
  have "bit ((((b AND 0x81) OR push_bit 1 49) AND 0x81) OR push_bit 1 (drop_bit 1 b AND 0x3F)) n
         \<longleftrightarrow> ((bit b n \<and> bit (0x81::byte) n \<or> bit (98::byte) n) \<and> bit (0x81::byte) n)
              \<or> (1 \<le> n \<and> bit b (1 + (n - 1)) \<and> bit (0x3F::byte) (n - 1))"
    unfolding c
    by (simp only: bit_or_iff bit_and_iff bit_push_bit_iff bit_drop_bit_eq) (use \<open>n < LENGTH(8)\<close> in auto)
  also have "\<dots> \<longleftrightarrow> bit b n"
    using n by (auto simp: bit_numeral_simps numeral_eq_Suc bit_Suc bit_0)
  finally show "bit ((((b AND 0x81) OR push_bit 1 49) AND 0x81) OR push_bit 1 (drop_bit 1 b AND 0x3F)) n = bit b n" .
qed

lemma fu_header_type:
  fixes x :: byte
  shows "(0x80 OR (x AND 0x3F)) AND 0x3F = x AND 0x3F"
    and "(0x40 OR (x AND 0x3F)) AND 0x3F = x AND 0x3F"
    and "(x AND 0x3F) AND 0x3F = x AND 0x3F"
  by (simp_all add: bit.conj_disj_distrib2 and.assoc)

lemma length_le_bytes: "length (le_bytes n v) = n"
  by (induction n arbitrary: v) simp_all

lemma pack_be_ok: "0 \<le> v \<Longrightarrow> v < 2 ^ (8 * n) \<Longrightarrow> \<exists>b. pack_be n v = Inr b \<and> length b = n"
  by (simp add: pack_be_def length_le_bytes)

lemma and_mask_range:
  fixes x :: int
  shows "0 \<le> x AND 0xFFFF" "x AND 0xFFFF < 2 ^ (8 * 2)"
        "0 \<le> x AND 0xFFFFFFFF" "x AND 0xFFFFFFFF < 2 ^ (8 * 4)"
proof -
  have "x AND 0xFFFF \<le> 0xFFFF" by (rule AND_upper2) simp
  then show "x AND 0xFFFF < 2 ^ (8 * 2)" by simp
  have "x AND 0xFFFFFFFF \<le> 0xFFFFFFFF" by (rule AND_upper2) simp
  then show "x AND 0xFFFFFFFF < 2 ^ (8 * 4)" by simp
qed simp_all

lemma make_rtp_packet_ok:
  assumes "packetizer_ok st"
  shows "\<exists>header. length header = 12 \<and>
           make_rtp_packet st payload marker =
             Inr (header @ payload, st\<lparr>sequence := (sequence st + 1) AND 0xFFFF\<rparr>)"
proof -
  have b1: "0 \<le> (if marker then 0x80 else 0) OR payload_type st"
           "(if marker then 0x80 else 0) OR payload_type st < 2 ^ (8 * 1)"
    using assms by (simp_all add: packetizer_ok_def)
  obtain h0 where h0: "pack_be 1 0x80 = Inr h0" "length h0 = 1"
    using pack_be_ok [of "0x80" 1] by auto
  obtain h1 where h1: "pack_be 1 ((if marker then 0x80 else 0) OR payload_type st) = Inr h1" "length h1 = 1"
    using pack_be_ok [OF b1] by auto
  obtain h2 where h2: "pack_be 2 (sequence st AND 0xFFFF) = Inr h2" "length h2 = 2"
    using pack_be_ok [OF and_mask_range(1,2)] by auto
  obtain h3 where h3: "pack_be 4 (timestamp st AND 0xFFFFFFFF) = Inr h3" "length h3 = 4"
    using pack_be_ok [OF and_mask_range(3,4)] by auto
  obtain h4 where h4: "pack_be 4 (ssrc st) = Inr h4" "length h4 = 4"
    using pack_be_ok [of "ssrc st" 4] assms by (auto simp: packetizer_ok_def)
  have "make_rtp_packet st payload marker =
          Inr ((h0 @ h1 @ h2 @ h3 @ h4) @ payload, st\<lparr>sequence := (sequence st + 1) AND 0xFFFF\<rparr>)"
    unfolding make_rtp_packet_def Let_def pack_fields.simps h0 h1 h2 h3 h4
    by simp
  moreover have "length (h0 @ h1 @ h2 @ h3 @ h4) = 12"
    by (simp add: h0 h1 h2 h3 h4)
  ultimately show ?thesis by blast
qed

lemma fu_loop_ok:
  "packetizer_ok st \<Longrightarrow> t AND 0x3F = t \<Longrightarrow>
   \<exists>pkts st'. fu_loop st N is_last t h1 h2 offset first packets = Inr (packets @ pkts, st')
     \<and> concat (map (\<lambda>pkt. drop 3 (rtp_payload pkt)) pkts) = drop offset N
     \<and> (\<forall>pkt \<in> set pkts. fu_payload_ok t h1 h2 (rtp_payload pkt))
     \<and> (offset < length N \<longrightarrow> pkts \<noteq> [])"
proof (induction st N is_last t h1 h2 offset first packets rule: fu_loop.induct)
  case (1 st N is_last t h1 h2 offset first packets)
  show ?case
  proof (cases "offset < length N")
    case False
    then show ?thesis
      by (subst fu_loop.simps) simp
  next
    case True
    define chunk_size where "chunk_size = min (max_payload - 3) (length N - offset)"
    define last_fragment where "last_fragment \<longleftrightarrow> length N \<le> offset + chunk_size"
    define fu_header where "fu_header = (if first then 0x80 OR t
                          else if last_fragment then 0x40 OR t else t)"
    define payload where "payload = [h1, h2] @ [fu_header] @ py_slice N offset (offset + chunk_size)"
    have cs: "0 < chunk_size" "chunk_size \<le> 1397"
      using True by (simp_all add: chunk_size_def max_payload_def)
    obtain header where header: "length header = 12"
      and mk: "make_rtp_packet st payload (is_last \<and> last_fragment) =
                 Inr (header @ payload, st\<lparr>sequence := (sequence st + 1) AND 0xFFFF\<rparr>)"
      using make_rtp_packet_ok [OF "1.prems"(1)] by blast
    let ?st' = "st\<lparr>sequence := (sequence st + 1) AND 0xFFFF\<rparr>"
    have ok': "packetizer_ok ?st'"
      using "1.prems"(1) by (simp add: packetizer_ok_def)
    have "fu_loop st N is_last t h1 h2 offset first packets =
            (case make_rtp_packet st payload (is_last \<and> last_fragment) of
               Inl e \<Rightarrow> Inl e
             | Inr (pkt, st') \<Rightarrow>
                 fu_loop st' N is_last t h1 h2 (offset + chunk_size) False (packets @ [pkt]))"
      unfolding payload_def fu_header_def last_fragment_def chunk_size_def
      by (subst fu_loop.simps) (simp only: True if_True Let_def)
    then have unfold: "fu_loop st N is_last t h1 h2 offset first packets =
            fu_loop ?st' N is_last t h1 h2 (offset + chunk_size) False (packets @ [header @ payload])"
      by (simp add: mk)
    have mk': "make_rtp_packet st
                 ([h1, h2] @ [if first then 0x80 OR t
                          else if length N \<le> offset + min (max_payload - 3) (length N - offset) then 0x40 OR t else t]
                   @ py_slice N offset (offset + min (max_payload - 3) (length N - offset)))
                 (is_last \<and> length N \<le> offset + min (max_payload - 3) (length N - offset))
               = Inr (header @ payload, ?st')"
      using mk unfolding payload_def fu_header_def last_fragment_def chunk_size_def .
    from "1.IH" [OF True refl refl refl refl refl refl mk' refl ok' "1.prems"(2)]
    obtain pkts st'' where
      run: "fu_loop ?st' N is_last t h1 h2 (offset + chunk_size) False (packets @ [header @ payload])
              = Inr ((packets @ [header @ payload]) @ pkts, st'')"
      and data: "concat (map (\<lambda>pkt. drop 3 (rtp_payload pkt)) pkts) = drop (offset + chunk_size) N"
      and ok: "\<forall>pkt \<in> set pkts. fu_payload_ok t h1 h2 (rtp_payload pkt)"
      unfolding chunk_size_def by blast
    have pl: "rtp_payload (header @ payload) = payload"
      by (simp add: rtp_payload_def header)
    have len_slice: "length (py_slice N offset (offset + chunk_size)) = chunk_size"
      using True by (simp add: py_slice_def chunk_size_def)
    have ty: "fu_header AND 0x3F = t"
    proof -
      obtain x where "t = x AND 0x3F" using "1.prems"(2) by metis
      then show ?thesis
        by (simp add: fu_header_def fu_header_type)
    qed
    have this_ok: "fu_payload_ok t h1 h2 payload"
      using cs ty by (simp add: fu_payload_ok_def payload_def len_slice)
    have this_data: "drop 3 payload @ drop (offset + chunk_size) N = drop offset N"
    proof -
      have "drop 3 payload = take chunk_size (drop offset N)"
        by (simp add: payload_def py_slice_def)
      moreover have "drop (offset + chunk_size) N = drop chunk_size (drop offset N)"
        by (simp add: add.commute)
      ultimately show ?thesis by (simp only: append_take_drop_id)
    qed
    show ?thesis
    proof (intro exI conjI)
      show "fu_loop st N is_last t h1 h2 offset first packets
              = Inr (packets @ ((header @ payload) # pkts), st'')"
        using unfold run by simp
      show "concat (map (\<lambda>pkt. drop 3 (rtp_payload pkt)) ((header @ payload) # pkts)) = drop offset N"
        using data this_data by (simp add: pl)
      show "\<forall>pkt \<in> set ((header @ payload) # pkts). fu_payload_ok t h1 h2 (rtp_payload pkt)"
        using ok this_ok by (simp add: pl)
      show "offset < length N \<longrightarrow> (header @ payload) # pkts \<noteq> []"
        by simp
    qed
  qed
qed

text \<open>
  C8. For a packetizer as \<open>__init__\<close> leaves it: a NAL unit of at most 1400 bytes becomes
  exactly one RTP packet whose payload is the unit; a longer one becomes FU packets, each with
  at most 1397 data bytes after the 2-byte indicator and the 1-byte FU header, and
  depacketizing them gives the unit back. This holds for every length, so for units up to
  1 MiB.
\<close>

theorem packetize_nal_roundtrip:
  assumes "packetizer_ok st"
  shows "(length N \<le> 1400 \<longrightarrow>
            (\<exists>pkt st'. packetize_nal st N is_last = Inr ([pkt], st') \<and> rtp_payload pkt = N))
         \<and> (1400 < length N \<longrightarrow>
            (\<exists>pkts st'. packetize_nal st N is_last = Inr (pkts, st')
               \<and> (\<forall>pkt \<in> set pkts. 3 < length (rtp_payload pkt)
                                     \<and> length (drop 3 (rtp_payload pkt)) \<le> 1397)
               \<and> depacketize_fu (map rtp_payload pkts) = N))"
proof (intro conjI impI)
  assume "length N \<le> 1400"
  moreover obtain header where "length header = 12"
    and "make_rtp_packet st N is_last = Inr (header @ N, st\<lparr>sequence := (sequence st + 1) AND 0xFFFF\<rparr>)"
    using make_rtp_packet_ok [OF assms] by blast
  ultimately show "\<exists>pkt st'. packetize_nal st N is_last = Inr ([pkt], st') \<and> rtp_payload pkt = N"
    by (simp add: packetize_nal_def max_payload_def rtp_payload_def)
next
  assume long: "1400 < length N"
  define t where "t = drop_bit 1 (N ! 0) AND 0x3F"
  define h1 where "h1 = (N ! 0 AND 0x81) OR push_bit 1 49"
  have tt: "t AND 0x3F = t"
    by (simp add: t_def fu_header_type)
  from fu_loop_ok [OF assms tt, of N is_last h1 "N ! 1" 2 True "[]"] long
  obtain pkts st' where
    run: "fu_loop st N is_last t h1 (N ! 1) 2 True [] = Inr (pkts, st')"
    and data: "concat (map (\<lambda>pkt. drop 3 (rtp_payload pkt)) pkts) = drop 2 N"
    and ok: "\<forall>pkt \<in> set pkts. fu_payload_ok t h1 (N ! 1) (rtp_payload pkt)"
    and ne: "pkts \<noteq> []"
    by auto
  have p: "packetize_nal st N is_last = Inr (pkts, st')"
    using long run by (simp add: packetize_nal_def max_payload_def Let_def t_def h1_def)
  have sizes: "\<forall>pkt \<in> set pkts. 3 < length (rtp_payload pkt) \<and> length (drop 3 (rtp_payload pkt)) \<le> 1397"
    using ok by (auto simp: fu_payload_ok_def)
  obtain first rest where pk: "pkts = first # rest"
    using ne by (cases pkts) simp_all
  have f: "fu_payload_ok t h1 (N ! 1) (rtp_payload first)"
    using ok pk by simp
  have b0: "(rtp_payload first ! 0 AND 0x81) OR push_bit 1 (rtp_payload first ! 2 AND 0x3F) = N ! 0"
    using f nal_byte0_rebuilt [of "N ! 0"] by (simp add: fu_payload_ok_def t_def h1_def)
  have b1: "rtp_payload first ! 1 = N ! 1"
    using f by (simp add: fu_payload_ok_def)
  have c: "concat (map (drop 3) (map rtp_payload pkts)) = drop 2 N"
    using data by (simp add: comp_def)
  have "depacketize_fu (map rtp_payload pkts) = [N ! 0, N ! 1] @ drop 2 N"
    unfolding depacketize_fu_def c [symmetric] pk using b0 b1 by simp
  also have "\<dots> = N"
  proof -
    obtain x y zs where "N = x # y # zs"
      using long by (cases N; cases "tl N") auto
    then show ?thesis by simp
  qed
  finally have "depacketize_fu (map rtp_payload pkts) = N" .
  with p sizes
  show "\<exists>pkts st'. packetize_nal st N is_last = Inr (pkts, st')
               \<and> (\<forall>pkt \<in> set pkts. 3 < length (rtp_payload pkt)
                                     \<and> length (drop 3 (rtp_payload pkt)) \<le> 1397)
               \<and> depacketize_fu (map rtp_payload pkts) = N"
    by blast
qed

theorem packetize_nal_roundtrip_witness:
  "packetizer_ok \<lparr>ssrc = 0x01020304, sequence = 65535, timestamp = 7, payload_type = 96\<rparr>
   \<and> length [0x40, 1, 2, 3 :: byte] \<le> 1400
   \<and> 1400 < length (replicate 1500 (0x26 :: byte))
   \<and> (\<exists>pkt st'. packetize_nal \<lparr>ssrc = 0x01020304, sequence = 65535, timestamp = 7, payload_type = 96\<rparr>
                    [0x40, 1, 2, 3] True = Inr ([pkt], st')
                  \<and> rtp_payload pkt = [0x40, 1, 2, 3])
   \<and> (\<exists>pkts st'. packetize_nal \<lparr>ssrc = 0x01020304, sequence = 65535, timestamp = 7, payload_type = 96\<rparr>
                     (replicate 1500 0x26) True = Inr (pkts, st')
                   \<and> depacketize_fu (map rtp_payload pkts) = replicate 1500 0x26)"
proof -
  let ?st = "\<lparr>ssrc = 0x01020304, sequence = 65535, timestamp = 7, payload_type = 96\<rparr>"
  have ok: "packetizer_ok ?st"
    by (simp add: packetizer_ok_def)
  have s: "length [0x40, 1, 2, 3 :: byte] \<le> 1400"
    by simp
  have l: "1400 < length (replicate 1500 (0x26 :: byte))"
    by simp
  from packetize_nal_roundtrip [OF ok, of "[0x40, 1, 2, 3]" True]
       packetize_nal_roundtrip [OF ok, of "replicate 1500 0x26" True] ok s l
  show ?thesis
    by blast
qed
section \<open>Password encryption read back\<close>

lemma index_of_nth:
  "distinct xs \<Longrightarrow> n < length xs \<Longrightarrow> index_of (xs ! n) xs = Some n"
proof (induction xs arbitrary: n)
  case Nil
  then show ?case by simp
next
  case (Cons x xs)
  show ?case
  proof (cases n)
    case 0
    then show ?thesis by simp
  next
    case (Suc m)
    with Cons.prems have "xs ! m \<noteq> x" "m < length xs" by auto
    with Cons Suc show ?thesis by simp
  qed
qed

lemma length_b64_alphabet: "length b64_alphabet = 64"
  by (simp add: b64_alphabet_def)

lemma distinct_b64_alphabet: "distinct b64_alphabet"
  by (simp add: b64_alphabet_def)

lemma b64_index_nth: "n < 64 \<Longrightarrow> b64_index (b64_alphabet ! n) = Some n"
  by (simp add: b64_index_def index_of_nth distinct_b64_alphabet length_b64_alphabet)

lemma b64_alphabet_no_pad: "n < 64 \<Longrightarrow> b64_alphabet ! n \<noteq> CHR ''=''"
proof -
  have "CHR ''='' \<notin> set b64_alphabet"
    by (simp add: b64_alphabet_def)
  then show "n < 64 \<Longrightarrow> b64_alphabet ! n \<noteq> CHR ''=''"
    by (metis length_b64_alphabet nth_mem)
qed

lemma char_of_unat_of_char: "char_of (unat (of_char c :: byte)) = c"
proof -
  have "(of_char c :: byte) = of_nat (of_char c)"
    by (simp only: of_nat_of_char)
  then have "unat (of_char c :: byte) = of_char c mod 256"
    by (simp only: unat_of_nat) simp
  then show ?thesis by simp
qed

lemma quad_recombine:
  "(n div 262144) * 262144 + (n div 4096 mod 64) * 4096 + (n div 64 mod 64) * 64 + n mod 64 = (n::nat)"
proof -
  define n1 where "n1 = n div 64"
  define n2 where "n2 = n1 div 64"
  define n3 where "n3 = n2 div 64"
  have d: "n div 4096 = n2" "n div 262144 = n3"
    by (simp_all add: n1_def n2_def n3_def div_mult2_eq [symmetric])
  have a: "n = n1 * 64 + n mod 64" by (simp add: n1_def)
  have b: "n1 = n2 * 64 + n1 mod 64" by (simp add: n2_def)
  have c: "n2 = n3 * 64 + n2 mod 64" by (simp add: n3_def)
  have "n3 * 262144 + (n2 mod 64) * 4096 + (n1 mod 64) * 64 + n mod 64
          = ((n3 * 64 + n2 mod 64) * 64 + n1 mod 64) * 64 + n mod 64"
    by (simp add: algebra_simps)
  also have "\<dots> = n"
    using a b c by simp
  finally show ?thesis
    by (simp add: d n1_def [symmetric])
qed

lemma triple_split:
  fixes a b c :: nat
  assumes "a < 256" "b < 256" "c < 256"
  shows "(a * 65536 + b * 256 + c) div 65536 = a"
    and "(a * 65536 + b * 256 + c) div 256 mod 256 = b"
    and "(a * 65536 + b * 256 + c) mod 256 = c"
    and "(a * 65536 + b * 256 + c) div 262144 < 64"
proof -
  have bc: "b * 256 + c < 65536" using assms by simp
  have e: "a * 65536 + b * 256 + c = (b * 256 + c) + a * 65536" by simp
  show "(a * 65536 + b * 256 + c) div 65536 = a"
    unfolding e using bc by simp
  have f: "a * 65536 + b * 256 + c = c + (a * 256 + b) * 256" by simp
  have "(a * 65536 + b * 256 + c) div 256 = a * 256 + b"
    unfolding f using assms(3) by simp
  then show "(a * 65536 + b * 256 + c) div 256 mod 256 = b"
    using assms(2) by simp
  show "(a * 65536 + b * 256 + c) mod 256 = c"
    by (subst f) (simp only: mod_mult_self1 mod_less assms(3))
  have "a * 65536 + b * 256 + c < 64 * 262144" using assms by simp
  then show "(a * 65536 + b * 256 + c) div 262144 < 64"
    by (simp add: less_mult_imp_div_less)
qed

lemma b64_char_decode: "char_of (unat (b64_char n)) = b64_alphabet ! n"
  by (simp add: b64_char_def char_of_unat_of_char)

lemma b64_quad:
  assumes "q0 < 64" "q1 < 64" "q2 < 64" "q3 < 64" "b64decode rest = Some bs"
  shows "b64decode (b64_alphabet ! q0 # b64_alphabet ! q1 # b64_alphabet ! q2 # b64_alphabet ! q3 # rest)
           = Some ([of_nat ((q0 * 262144 + q1 * 4096 + q2 * 64 + q3) div 65536),
                    of_nat ((q0 * 262144 + q1 * 4096 + q2 * 64 + q3) div 256 mod 256),
                    of_nat ((q0 * 262144 + q1 * 4096 + q2 * 64 + q3) mod 256)] @ bs)"
  unfolding b64decode.simps b64_index_nth [OF assms(1)] b64_index_nth [OF assms(2)]
    b64_index_nth [OF assms(3)] b64_index_nth [OF assms(4)] assms(5)
  using b64_alphabet_no_pad [OF assms(3)] b64_alphabet_no_pad [OF assms(4)]
  by (simp only: prod.case option.case if_False simp_thms Let_def)

lemma bytes_decode_Cons: "bytes_decode (x # xs) = char_of (unat x) # bytes_decode xs"
  by (simp add: bytes_decode_def)

lemma bytes_decode_Nil: "bytes_decode [] = []"
  by (simp add: bytes_decode_def)

lemma unat_byte_less: "unat (a :: byte) < 256"
  using unsigned_less [of a] by simp

lemma b64_roundtrip: "b64decode (bytes_decode (b64encode bs)) = Some bs"
proof (induction bs rule: b64encode.induct)
  case (1 a b c rest)
  define n where "n = unat a * 65536 + unat b * 256 + unat c"
  note lt = unat_byte_less [of a] unat_byte_less [of b] unat_byte_less [of c]
  have q: "n div 262144 < 64" "n div 4096 mod 64 < 64" "n div 64 mod 64 < 64" "n mod 64 < 64"
    using triple_split(4) [OF lt] by (simp_all add: n_def)
  have enc: "bytes_decode (b64encode (a # b # c # rest)) =
               b64_alphabet ! (n div 262144) # b64_alphabet ! (n div 4096 mod 64)
                 # b64_alphabet ! (n div 64 mod 64) # b64_alphabet ! (n mod 64)
                 # bytes_decode (b64encode rest)"
    unfolding b64encode.simps Let_def n_def [symmetric]
    by (simp only: append_Cons append_Nil bytes_decode_Cons b64_char_decode)
  have bytes: "of_nat (n div 65536) = a" "of_nat (n div 256 mod 256) = b" "of_nat (n mod 256) = c"
    unfolding n_def triple_split(1-3) [OF lt] by simp_all
  show ?case
    unfolding enc b64_quad [OF q "1.IH"] quad_recombine bytes by simp
next
  case (2 a b)
  define n where "n = unat a * 65536 + unat b * 256 + 0"
  note lt = unat_byte_less [of a] unat_byte_less [of b] unat_byte_less [of 0]
  have q: "n div 262144 < 64" "n div 4096 mod 64 < 64" "n div 64 mod 64 < 64"
    using triple_split(4) [OF lt] by (simp_all add: n_def)
  have n': "unat a * 65536 + unat b * 256 = n"
    by (simp add: n_def)
  have enc: "bytes_decode (b64encode [a, b]) =
               [b64_alphabet ! (n div 262144), b64_alphabet ! (n div 4096 mod 64),
                b64_alphabet ! (n div 64 mod 64), CHR ''='']"
    unfolding b64encode.simps Let_def n'
    by (simp only: bytes_decode_Cons bytes_decode_Nil b64_char_decode char_of_unat_of_char)
  have "n mod 64 = 0"
  proof -
    have "n = (unat a * 1024 + unat b * 4) * 64" by (simp add: n_def)
    then show ?thesis by (simp only: mod_mult_self2_is_0)
  qed
  with quad_recombine [of n]
  have m: "n div 262144 * 262144 + n div 4096 mod 64 * 4096 + n div 64 mod 64 * 64 = n"
    by simp
  have bytes: "of_nat (n div 65536) = a" "of_nat (n div 256 mod 256) = b"
    using triple_split(1,2) [OF lt] by (simp_all add: n_def)
  have "b64decode [b64_alphabet ! (n div 262144), b64_alphabet ! (n div 4096 mod 64),
                b64_alphabet ! (n div 64 mod 64), CHR ''='']
          = Some [of_nat (n div 65536), of_nat (n div 256 mod 256)]"
    unfolding b64decode.simps b64_index_nth [OF q(1)] b64_index_nth [OF q(2)] b64_index_nth [OF q(3)]
    using b64_alphabet_no_pad [OF q(3)]
    by (simp only: prod.case option.case if_False if_True simp_thms m)
  then show ?case
    unfolding enc bytes .
next
  case (3 a)
  define n where "n = unat a * 65536 + 0 * 256 + 0"
  note lt = unat_byte_less [of a] unat_byte_less [of 0] unat_byte_less [of 0]
  have q: "n div 262144 < 64" "n div 4096 mod 64 < 64"
    using triple_split(4) [OF lt] by (simp_all add: n_def)
  have n': "unat a * 65536 = n"
    by (simp add: n_def)
  have enc: "bytes_decode (b64encode [a]) =
               [b64_alphabet ! (n div 262144), b64_alphabet ! (n div 4096 mod 64), CHR ''='', CHR ''='']"
    unfolding b64encode.simps Let_def n'
    by (simp only: bytes_decode_Cons bytes_decode_Nil b64_char_decode char_of_unat_of_char)
  have "n div 64 = (unat a * 16) * 64" "n = (unat a * 1024) * 64"
    by (simp_all add: n_def)
  then have z: "n div 64 mod 64 = 0" "n mod 64 = 0"
    by (simp_all only: mod_mult_self2_is_0)
  with quad_recombine [of n]
  have m: "n div 262144 * 262144 + n div 4096 mod 64 * 4096 = n"
    by simp
  have bytes: "of_nat (n div 65536) = a"
    using triple_split(1) [OF lt] by (simp add: n_def)
  have "b64decode [b64_alphabet ! (n div 262144), b64_alphabet ! (n div 4096 mod 64), CHR ''='', CHR ''='']
          = Some [of_nat (n div 65536)]"
    unfolding b64decode.simps b64_index_nth [OF q(1)] b64_index_nth [OF q(2)]
    by (simp only: prod.case option.case if_True simp_thms m)
  then show ?case
    unfolding enc bytes .
next
  case 4
  show ?case by (simp add: bytes_decode_def)
qed

lemma unpad_pad: "unpad (pad d 16) = Some d"
proof -
  define n where "n = 16 - length d mod 16"
  have n: "1 \<le> n" "n \<le> 16"
    by (simp_all add: n_def)
  have p: "pad d 16 = d @ replicate n (of_nat n)"
    by (simp add: pad_def n_def Let_def)
  have u: "unat (of_nat n :: byte) = n"
    using n by (simp add: unat_of_nat)
  have l: "length (d @ replicate n (of_nat n :: byte)) mod 16 = 0"
  proof -
    have "length d + n = (length d div 16 + 1) * 16"
      unfolding n_def by (simp add: algebra_simps) presburger
    then show ?thesis by (simp only: length_append length_replicate mod_mult_self2_is_0)
  qed
  have la: "last (d @ replicate n (of_nat n :: byte)) = of_nat n"
    using n by (cases n) simp_all
  have ne: "d @ replicate n (of_nat n :: byte) \<noteq> []"
    using n by (cases n) simp_all
  show ?thesis
    unfolding p unpad_def Let_def la u
    using n l ne by simp
qed

lemma block_concat_slice:
  "\<forall>x \<in> set xs. length (f x) = 16 \<Longrightarrow> k < length xs \<Longrightarrow>
   py_slice (concat (map f xs)) (16 * k) (16 * k + 16) = f (xs ! k)"
proof (induction xs arbitrary: k)
  case Nil
  then show ?case by simp
next
  case (Cons x xs)
  have lx: "length (f x) = 16" using Cons.prems(1) by simp
  show ?case
  proof (cases k)
    case 0
    then show ?thesis by (simp add: py_slice_def lx)
  next
    case (Suc j)
    have "py_slice (f x @ concat (map f xs)) (16 + 16 * j) (16 + (16 * j + 16))
            = py_slice (concat (map f xs)) (16 * j) (16 * j + 16)"
      by (rule py_slice_append_skip [OF lx])
    also have "\<dots> = f (xs ! j)"
      using Cons.prems Suc by (intro Cons.IH) simp_all
    finally show ?thesis
      by (simp add: Suc)
  qed
qed

lemma concat_blocks:
  "16 * m \<le> length pt \<Longrightarrow>
   concat (map (\<lambda>k. py_slice pt (16 * k) (16 * k + 16)) [0..<m]) = take (16 * m) pt"
proof (induction m)
  case 0
  then show ?case by simp
next
  case (Suc m)
  then have "concat (map (\<lambda>k. py_slice pt (16 * k) (16 * k + 16)) [0..<m]) = take (16 * m) pt"
    by simp
  moreover have "take (16 + 16 * m) pt = take (16 * m) pt @ take 16 (drop (16 * m) pt)"
    using take_add [of "16 * m" 16 pt] by (simp add: add.commute)
  ultimately show ?case
    by (simp add: py_slice_def)
qed

lemma ecb_roundtrip:
  assumes "aes_pair E D" and "length key = 16" and "length pt mod 16 = 0"
  shows "\<exists>ct. ecb_encrypt E key pt = Inr ct \<and> length ct = length pt \<and> ecb_decrypt (D key) ct = pt"
proof -
  define m where "m = length pt div 16"
  define blk where "blk = (\<lambda>k. py_slice pt (16 * k) (16 * k + 16))"
  define ct where "ct = concat (map (\<lambda>k. E key (blk k)) [0..<m])"
  have lp: "length pt = 16 * m"
    using assms(3) unfolding m_def by presburger
  have enc: "ecb_encrypt E key pt = Inr ct"
    using assms(2,3) by (simp add: ecb_encrypt_def ct_def blk_def m_def)
  have lb: "length (blk k) = 16" if "k < m" for k
    using that lp by (simp add: blk_def length_py_slice)
  have le: "\<forall>k \<in> set [0..<m]. length (E key (blk k)) = 16"
    using assms(1,2) lb by (simp add: aes_pair_def)
  have lc: "length ct = 16 * m"
    unfolding ct_def using length_concat_const [of "[0..<m]" "\<lambda>k. E key (blk k)" 16] le by simp
  have "ecb_decrypt (D key) ct = concat (map (\<lambda>k. D key (py_slice ct (16 * k) (16 * k + 16))) [0..<m])"
    by (simp add: ecb_decrypt_def lc)
  also have "\<dots> = concat (map blk [0..<m])"
  proof (rule arg_cong [where f = concat], rule map_cong [OF refl])
    fix k assume "k \<in> set [0..<m]"
    then have k: "k < m" by simp
    have "py_slice ct (16 * k) (16 * k + 16) = E key (blk ([0..<m] ! k))"
      unfolding ct_def using le k by (intro block_concat_slice) simp_all
    then show "D key (py_slice ct (16 * k) (16 * k + 16)) = blk k"
      using assms(1,2) lb [OF k] k by (simp add: aes_pair_def)
  qed
  also have "\<dots> = pt"
    unfolding blk_def using concat_blocks [of m pt] lp by simp
  finally show ?thesis
    using enc lc lp by simp
qed

lemma length_pad_16: "length (pad d 16) mod 16 = 0"
proof -
  have "length d + (16 - length d mod 16) = (length d div 16 + 1) * 16"
    by (simp add: algebra_simps) presburger
  then show ?thesis
    by (simp only: pad_def Let_def length_append length_replicate mod_mult_self2_is_0)
qed

lemma bytes_decode_str_encode: "bytes_decode (str_encode s) = s"
  by (simp add: bytes_decode_def str_encode_def comp_def char_of_unat_of_char)

lemma length_str_encode: "length (str_encode s) = length s"
  by (simp add: str_encode_def)

lemma toy_roundtrip:
  "length b \<le> length key \<Longrightarrow> toy_decrypt key (toy_encrypt key b) = b"
  unfolding toy_decrypt_def toy_encrypt_def
  by (induction b arbitrary: key) (auto simp: Suc_le_length_iff)

lemma aes_pair_toy: "aes_pair toy_encrypt toy_decrypt"
  unfolding aes_pair_def
proof (intro allI impI conjI)
  fix key b :: bytes
  assume "length key = 16 \<and> length b = 16"
  then show "length (toy_encrypt key b) = 16" "toy_decrypt key (toy_encrypt key b) = b"
    by (simp_all add: toy_roundtrip) (simp add: toy_encrypt_def)
qed

text \<open>
  C7. For every password and every 16-byte random key, \<open>encrypt_password\<close> succeeds, and
  base64-decoding its result, AES-ECB-decrypting under the random key, stripping PKCS#7,
  AES-ECB-decrypting under the fixed key \<open>macrovideo+*#!^@\<close> and stripping PKCS#7 gives the
  password back. AES enters through its defining property: decryption inverts encryption on
  16-byte blocks.
\<close>

theorem encrypt_password_roundtrip:
  assumes "aes_pair E D" and "length random_key = 16"
  shows "\<exists>s. encrypt_password E password random_key = Inr s
             \<and> decrypt_password D random_key s = Some password"
proof -
  have k1: "length (str_encode V380_KEY) = 16"
    by (simp add: length_str_encode V380_KEY_def)
  have k2: "length (str_encode random_key) = 16"
    by (simp add: length_str_encode assms(2))
  obtain encrypted1 where
    e1: "ecb_encrypt E (str_encode V380_KEY) (pad (str_encode password) 16) = Inr encrypted1"
    and d1: "ecb_decrypt (D (str_encode V380_KEY)) encrypted1 = pad (str_encode password) 16"
    using ecb_roundtrip [OF assms(1) k1 length_pad_16] by blast
  obtain encrypted2 where
    e2: "ecb_encrypt E (str_encode random_key) (pad encrypted1 16) = Inr encrypted2"
    and d2: "ecb_decrypt (D (str_encode random_key)) encrypted2 = pad encrypted1 16"
    using ecb_roundtrip [OF assms(1) k2 length_pad_16] by blast
  have enc: "encrypt_password E password random_key = Inr (bytes_decode (b64encode encrypted2))"
    by (simp add: encrypt_password_def Let_def e1 e2)
  have "decrypt_password D random_key (bytes_decode (b64encode encrypted2)) = Some password"
    by (simp add: decrypt_password_def b64_roundtrip d2 unpad_pad d1 bytes_decode_str_encode)
  with enc show ?thesis by blast
qed

theorem encrypt_password_roundtrip_witness:
  "aes_pair toy_encrypt toy_decrypt \<and> length ''0123456789abcdef'' = 16
   \<and> (\<exists>s. encrypt_password toy_encrypt ''secret'' ''0123456789abcdef'' = Inr s
          \<and> decrypt_password toy_decrypt ''0123456789abcdef'' s = Some ''secret'')"
proof -
  have l: "length ''0123456789abcdef'' = 16" by simp
  from encrypt_password_roundtrip [OF aes_pair_toy l, of "''secret''"] aes_pair_toy l
  show ?thesis by blast
qed

end
